theory Spec2Isabelle
  imports Main "HOL-Library.Word" "HOL-Library.Monad_Syntax"
begin

section \<open>Strings of the source language\<close>

text \<open>
  A JavaScript string is a sequence of UTF-16 code units; \<open>text.length\<close> counts them.
  Source text and DOM text nodes are lists of 16-bit words, so that the line feed
  (U+000A) and the zero-width space (U+200B) are both single elements.  Tag names,
  class names, attribute names and mdast node types are ASCII identifiers and are
  kept as \<open>string\<close>.
\<close>

type_synonym jsstring = "16 word list"

definition NL :: "16 word" where
  "NL = 0x000A"

definition ZWSP :: "16 word" where
  "ZWSP = 0x200B"

text \<open>\<open>s.slice(a, b)\<close> for non-negative integers: both ends are clamped to the length,
  and an empty string is returned when \<open>a \<ge> b\<close>.\<close>

definition js_slice :: "jsstring \<Rightarrow> nat \<Rightarrow> nat \<Rightarrow> jsstring" where
  "js_slice s a b = take (b - a) (drop a s)"

text \<open>\<open>text.split('\n')\<close>: never empty; \<open>''.split('\n')\<close> is \<open>['']\<close>.\<close>

fun split_nl :: "jsstring \<Rightarrow> jsstring list" where
  "split_nl [] = [[]]"
| "split_nl (c # cs) =
     (if c = NL then [] # split_nl cs
      else (c # hd (split_nl cs)) # tl (split_nl cs))"

text \<open>The template literal \<open>`${i}`\<close> for a non-negative integer: its decimal digits.\<close>

fun show_nat :: "nat \<Rightarrow> string" where
  "show_nat n =
     (if n < 10 then [''0123456789'' ! n]
      else show_nat (n div 10) @ [''0123456789'' ! (n mod 10)])"

declare show_nat.simps [simp del]

section \<open>The parsed tree\<close>

text \<open>
  An mdast node: its \<open>type\<close>, its \<open>depth\<close> (read for headings only), the offsets
  \<open>position?.start.offset\<close> and \<open>position?.end.offset\<close> (\<open>None\<close> for \<open>undefined\<close>),
  and, for a parent node only, the property \<open>children\<close>.
\<close>

datatype mdast =
    Literal (ntype: string) (ndepth: nat) (nstart: "nat option") (nend: "nat option")
  | Parent (ntype: string) (ndepth: nat) (nstart: "nat option") (nend: "nat option")
      (nchildren: "mdast list")

section \<open>The output tree\<close>

text \<open>
  A DOM element: tag name, class list (\<open>classList\<close>, without duplicates, in insertion
  order), attributes, and child nodes.  A child is a text node or an element.
  An element is never changed after it has been appended to its parent, so elements
  are values; the pass over a store of objects that are changed in place, defined
  further down, returns the same trees.
\<close>

datatype element =
    Element (tag: string) (classes: "string list") (attrs: "(string \<times> string) list")
      (kids: "child list")
and child =
    TextNode jsstring
  | ElemNode element

definition createElement :: "string \<Rightarrow> element" where
  "createElement t = Element t [] [] []"

definition classList_add :: "string \<Rightarrow> element \<Rightarrow> element" where
  "classList_add c e =
     (if c \<in> set (classes e) then e
      else Element (tag e) (classes e @ [c]) (attrs e) (kids e))"

definition append_child :: "child \<Rightarrow> element \<Rightarrow> element" where
  "append_child c e = Element (tag e) (classes e) (attrs e) (kids e @ [c])"

fun update_attr :: "string \<Rightarrow> string \<Rightarrow> (string \<times> string) list \<Rightarrow> (string \<times> string) list" where
  "update_attr k v [] = [(k, v)]"
| "update_attr k v (p # ps) = (if fst p = k then (k, v) # ps else p # update_attr k v ps)"

definition setAttribute :: "string \<Rightarrow> string \<Rightarrow> element \<Rightarrow> element" where
  "setAttribute k v e = Element (tag e) (classes e) (update_attr k v (attrs e)) (kids e)"

section \<open>The build state of one pass\<close>

record frame =
  node :: mdast
  el :: element
  first :: bool

record state =
  scanOffset :: nat
  stack :: "frame list"
  block :: element
  rootEl :: element

definition classNamePrefix :: string where
  "classNamePrefix = ''x-star-md-editor-''"

definition init_state :: state where
  "init_state = \<lparr>scanOffset = 0, stack = [], block = createElement ''div'',
     rootEl = createElement ''div''\<rparr>"

definition isFlowContent :: "mdast \<Rightarrow> bool" where
  "isFlowContent n \<longleftrightarrow>
     ntype n = ''blockquote'' \<or> ntype n = ''listItem'' \<or> ntype n = ''footnoteDefinition''"

text \<open>The class names that \<open>pushElement\<close> adds to its style element.\<close>

definition addStyle :: "mdast \<Rightarrow> bool \<Rightarrow> bool \<Rightarrow> element \<Rightarrow> element" where
  "addStyle n isFirst isLast e =
     (let e1 = classList_add (classNamePrefix @ ntype n) e in
      if ntype n = ''heading'' then
        classList_add (classNamePrefix @ ''heading'' @ show_nat (ndepth n)) e1
      else if ntype n = ''html'' \<or> ntype n = ''code'' \<or> ntype n = ''math'' then
        (let e2 = (if isFirst then classList_add (classNamePrefix @ ''first'') e1 else e1)
         in if isLast then classList_add (classNamePrefix @ ''last'') e2 else e2)
      else e1)"

text \<open>The index of the frame whose element receives the class names.\<close>

definition styleIndex :: "frame list \<Rightarrow> nat \<Rightarrow> nat" where
  "styleIndex stk index =
     (if index \<noteq> 0 \<and> \<not> isFlowContent (node (stk ! (index - 1))) then index else 0)"

text \<open>\<open>stack[k].el = f(stack[k].el)\<close>.\<close>

definition map_el :: "nat \<Rightarrow> (element \<Rightarrow> element) \<Rightarrow> frame list \<Rightarrow> frame list" where
  "map_el k f stk = stk[k := (stk ! k)\<lparr>el := f (el (stk ! k))\<rparr>]"

text \<open>
  \<open>pushElement(index, last)\<close>.  Reading \<open>stack[index]\<close> out of range gives
  \<open>undefined\<close>, and destructuring it throws a TypeError: the result \<open>None\<close>.
\<close>

definition pushElement :: "nat \<Rightarrow> bool \<Rightarrow> state \<Rightarrow> state option" where
  "pushElement index isLast st =
     (if index < length (stack st) then
        let n = node (stack st ! index);
            isFirst = first (stack st ! index);
            stk1 = map_el (styleIndex (stack st) index) (addStyle n isFirst isLast) (stack st);
            c = ElemNode (el (stk1 ! index));
            st2 = (if index \<noteq> 0
                   then st\<lparr>stack := map_el (index - 1) (append_child c) stk1\<rparr>
                   else st\<lparr>stack := stk1, block := append_child c (block st)\<rparr>);
            stk3 = (stack st2)[index := (stack st2 ! index)
                     \<lparr>el := createElement (if index \<noteq> 0 then ''span'' else ''div''),
                      first := False\<rparr>]
        in Some (st2\<lparr>stack := stk3\<rparr>)
      else None)"

definition pushBlock :: "state \<Rightarrow> state" where
  "pushBlock st =
     st\<lparr>rootEl := append_child
            (ElemNode (classList_add (classNamePrefix @ ''block'') (block st))) (rootEl st),
        block := createElement ''div''\<rparr>"

definition createDelimiter :: "jsstring \<Rightarrow> element" where
  "createDelimiter text =
     classList_add (classNamePrefix @ ''delimiter'')
       (append_child (TextNode text) (createElement ''span''))"

definition createLine :: "jsstring \<Rightarrow> element" where
  "createLine text = append_child (TextNode (text @ [ZWSP])) (createElement ''div'')"

text \<open>\<open>stack[k].el.append(c)\<close>; a TypeError when \<open>stack[k]\<close> is \<open>undefined\<close>.\<close>

definition appendToFrame :: "nat \<Rightarrow> child \<Rightarrow> state \<Rightarrow> state option" where
  "appendToFrame k c st =
     (if k < length (stack st) then Some (st\<lparr>stack := map_el k (append_child c) (stack st)\<rparr>)
      else None)"

text \<open>\<open>if (line) stack[stack.length - 1].el.append(delimiter ? createDelimiter(line) : line)\<close>.\<close>

definition appendLine :: "jsstring \<Rightarrow> bool \<Rightarrow> state \<Rightarrow> state option" where
  "appendLine line delimiter st =
     (if line \<noteq> [] then
        appendToFrame (length (stack st) - 1)
          (if delimiter then ElemNode (createDelimiter line) else TextNode line) st
      else Some st)"

text \<open>\<open>for (let j = stack.length - 1; j; j--) pushElement(j)\<close>, started at \<open>j\<close>.\<close>

fun flushFrames :: "nat \<Rightarrow> state \<Rightarrow> state option" where
  "flushFrames 0 st = Some st"
| "flushFrames (Suc j) st = pushElement (Suc j) False st \<bind> flushFrames j"

text \<open>The body of the loop over \<open>lines[1..]\<close> when the stack is not empty.\<close>

definition breakLine :: "state \<Rightarrow> state option" where
  "breakLine st =
     flushFrames (length (stack st) - 1) st \<bind> appendToFrame 0 (TextNode [ZWSP])
       \<bind> pushElement 0 False"

fun addLines :: "jsstring list \<Rightarrow> bool \<Rightarrow> state \<Rightarrow> state option" where
  "addLines [] delimiter st = Some st"
| "addLines (l # ls) delimiter st =
     breakLine st \<bind> appendLine l delimiter \<bind> addLines ls delimiter"

text \<open>The loop over all lines but the last when the stack is empty.\<close>

fun addBlockLines :: "jsstring list \<Rightarrow> state \<Rightarrow> state" where
  "addBlockLines [] st = st"
| "addBlockLines (l # ls) st =
     addBlockLines ls
       ((pushBlock (st\<lparr>block := append_child (ElemNode (createLine l)) (block st)\<rparr>))
          \<lparr>scanOffset := scanOffset st + (length l + 1)\<rparr>)"

definition addText :: "jsstring \<Rightarrow> bool \<Rightarrow> state \<Rightarrow> state option" where
  "addText text delimiter st =
     (let lines = split_nl text in
      if stack st \<noteq> [] then
        appendLine (hd lines) delimiter st \<bind> addLines (tl lines) delimiter
          \<bind> (\<lambda>st1. Some (st1\<lparr>scanOffset := scanOffset st1 + length text\<rparr>))
      else Some (addBlockLines (butlast lines) st))"

text \<open>What follows the children of a node in \<open>getChildren\<close>: the frame is closed, and
  at stack size one the block is closed too.\<close>

definition closeFrame :: "nat \<Rightarrow> state \<Rightarrow> state option" where
  "closeFrame i st =
     (if length (stack st) > 1 then pushElement (length (stack st) - 1) True st
      else
        appendToFrame 0 (TextNode [ZWSP]) st \<bind> pushElement 0 True
          \<bind> (\<lambda>st1. Some ((pushBlock (st1\<lparr>block := setAttribute ''index'' (show_nat i) (block st1)\<rparr>))
                \<lparr>scanOffset := scanOffset st1 + 1\<rparr>)))
     \<bind> (\<lambda>st2. Some (st2\<lparr>stack := butlast (stack st2)\<rparr>))"

text \<open>
  \<open>getChildren(nodes, parentEndOffset)\<close>: \<open>getChildren_from\<close> is the loop from index
  \<open>i\<close> on, over the nodes that are left, followed by the trailing \<open>addText\<close>;
  \<open>visitNode\<close> is the loop body for one node.
\<close>

fun getChildren_from :: "jsstring \<Rightarrow> mdast list \<Rightarrow> nat \<Rightarrow> nat \<Rightarrow> state \<Rightarrow> state option"
and visitNode :: "jsstring \<Rightarrow> mdast \<Rightarrow> nat \<Rightarrow> state \<Rightarrow> state option" where
  "getChildren_from S [] i parentEndOffset st =
     addText (js_slice S (scanOffset st) parentEndOffset) True st"
| "getChildren_from S (n # ns) i parentEndOffset st =
     visitNode S n i st \<bind> getChildren_from S ns (Suc i) parentEndOffset"
| "visitNode S n i st =
     (case nstart n of None \<Rightarrow> Some st
      | Some startOffset0 \<Rightarrow>
     (case nend n of None \<Rightarrow> Some st
      | Some endOffset \<Rightarrow>
        let startOffset = (if startOffset0 < scanOffset st then scanOffset st else startOffset0) in
        if startOffset \<ge> endOffset then Some st
        else
          addText (js_slice S (scanOffset st) startOffset) True st
          \<bind> (\<lambda>st1. Some (st1\<lparr>stack := stack st1 @
                  [\<lparr>node = n,
                    el = createElement (if stack st1 \<noteq> [] then ''span'' else ''div''),
                    first = True\<rparr>]\<rparr>))
          \<bind> (\<lambda>st2. case n of
                  Parent _ _ _ _ cs \<Rightarrow> getChildren_from S cs 0 endOffset st2
                | Literal _ _ _ _ \<Rightarrow> addText (js_slice S (scanOffset st2) endOffset) False st2)
          \<bind> closeFrame i))"

definition getChildren :: "jsstring \<Rightarrow> mdast list \<Rightarrow> nat \<Rightarrow> state \<Rightarrow> state option" where
  "getChildren S nodes parentEndOffset st = getChildren_from S nodes 0 parentEndOffset st"

text \<open>The last step of \<open>editorRender\<close>: the last line of text.\<close>

definition finish :: "jsstring \<Rightarrow> state \<Rightarrow> state" where
  "finish S st =
     (if scanOffset st \<le> length S
      then pushBlock (st\<lparr>block := append_child (ElemNode (createLine (drop (scanOffset st) S))) (block st)\<rparr>)
      else st)"

text \<open>
  \<open>editorRender(sourceCode)\<close>, with the children of \<open>processor.parse(sourceCode)\<close>
  as the second argument: the parser is a library outside this repository.
  \<open>renderPass\<close> is the pass up to the last line, with the whole state as result.
\<close>

definition renderPass :: "jsstring \<Rightarrow> mdast list \<Rightarrow> state option" where
  "renderPass S nodes = getChildren S nodes (length S) init_state"

definition editorRender :: "jsstring \<Rightarrow> mdast list \<Rightarrow> element option" where
  "editorRender S nodes = renderPass S nodes \<bind> (\<lambda>st. Some (rootEl (finish S st)))"

text \<open>An ASCII literal as a JavaScript string.\<close>

definition ascii :: "string \<Rightarrow> jsstring" where
  "ascii s = map (\<lambda>c. of_nat (of_char c)) s"

text \<open>The two cases of pushElement, with the lets unfolded.\<close>

definition styled :: "nat \<Rightarrow> bool \<Rightarrow> frame list \<Rightarrow> frame list" where
  "styled index l stk =
     map_el (styleIndex stk index) (addStyle (node (stk ! index)) (first (stk ! index)) l) stk"

text \<open>One visit, unfolded for a node that is not skipped.\<close>

definition pushFrame :: "mdast \<Rightarrow> state \<Rightarrow> state" where
  "pushFrame n st1 = st1\<lparr>stack := stack st1 @
     [\<lparr>node = n, el = createElement (if stack st1 \<noteq> [] then ''span'' else ''div''),
       first = True\<rparr>]\<rparr>"

definition visitBody :: "jsstring \<Rightarrow> mdast \<Rightarrow> nat \<Rightarrow> state \<Rightarrow> state option" where
  "visitBody S n endOffset st2 =
     (case n of Parent _ _ _ _ cs \<Rightarrow> getChildren_from S cs 0 endOffset st2
      | Literal _ _ _ _ \<Rightarrow> addText (js_slice S (scanOffset st2) endOffset) False st2)"

fun text_of :: "element \<Rightarrow> jsstring" and text_of_child :: "child \<Rightarrow> jsstring" where
  "text_of (Element t c a ks) = concat (map text_of_child ks)"
| "text_of_child (TextNode s) = s"
| "text_of_child (ElemNode e) = text_of e"

definition frame_text :: "frame \<Rightarrow> jsstring" where
  "frame_text f = text_of (el f)"

definition stack_text :: "frame list \<Rightarrow> jsstring" where
  "stack_text stk = concat (map frame_text stk)"

definition child_kids :: "child \<Rightarrow> child list" where
  "child_kids c = (case c of ElemNode e \<Rightarrow> kids e | TextNode t \<Rightarrow> [])"

definition all_lines :: "element \<Rightarrow> child list" where
  "all_lines r = concat (map child_kids (kids r))"

definition line_text :: "child \<Rightarrow> jsstring" where
  "line_text c = butlast (text_of_child c)"

fun join_lines :: "jsstring list \<Rightarrow> jsstring" where
  "join_lines [] = []"
| "join_lines [l] = l"
| "join_lines (l # ls) = l @ NL # join_lines ls"

definition reconstruct :: "element \<Rightarrow> jsstring" where
  "reconstruct r = join_lines (map line_text (all_lines r))"

definition done_text :: "state \<Rightarrow> jsstring" where
  "done_text st = concat (map (\<lambda>c. line_text c @ [NL]) (all_lines (rootEl st) @ kids (block st)))"

definition emitted :: "state \<Rightarrow> jsstring" where
  "emitted st = done_text st @ stack_text (stack st)"

fun nested_in :: "nat \<Rightarrow> mdast \<Rightarrow> bool" where
  "nested_in b (Literal ty d so eo) =
     (case so of None \<Rightarrow> True | Some s \<Rightarrow> (case eo of None \<Rightarrow> True | Some e \<Rightarrow> e \<le> b))"
| "nested_in b (Parent ty d so eo cs) =
     (case so of None \<Rightarrow> True | Some s \<Rightarrow> (case eo of None \<Rightarrow> True
        | Some e \<Rightarrow> e \<le> b \<and> list_all (nested_in e) cs))"

definition block_ends_line :: "jsstring \<Rightarrow> mdast \<Rightarrow> bool" where
  "block_ends_line S n =
     (case nstart n of None \<Rightarrow> True | Some s \<Rightarrow> (case nend n of None \<Rightarrow> True
        | Some e \<Rightarrow> e \<le> length S \<and> (e = length S \<or> S ! e = NL) \<and> nested_in e n))"

definition well_ranged :: "jsstring \<Rightarrow> mdast list \<Rightarrow> bool" where
  "well_ranged S nodes = list_all (block_ends_line S) nodes"

definition fidelity :: "jsstring \<Rightarrow> state \<Rightarrow> bool" where
  "fidelity S st \<longleftrightarrow> emitted st = take (scanOffset st) (S @ [NL])"

text \<open>Between the blocks the pending block is a fresh \<open>div\<close>.\<close>

definition block_fresh :: "state \<Rightarrow> bool" where
  "block_fresh st \<longleftrightarrow> (stack st = [] \<longrightarrow> block st = createElement ''div'')"

definition ends_in :: "jsstring \<Rightarrow> mdast list \<Rightarrow> bool" where
  "ends_in S nodes = list_all (\<lambda>n. case nend n of None \<Rightarrow> True | Some e \<Rightarrow> e \<le> length S) nodes"

definition single_src :: jsstring where
  "single_src = ascii ''a''"

definition single_tree :: "mdast list" where
  "single_tree = [Parent ''paragraph'' 0 (Some 0) (Some 1) [Literal ''text'' 0 (Some 0) (Some 1)]]"

definition clamp_src :: jsstring where
  "clamp_src = ascii ''ab''"

definition clamp_node :: mdast where
  "clamp_node = Literal ''text'' 0 (Some 0) (Some 2)"

definition clamp_state :: state where
  "clamp_state = init_state\<lparr>scanOffset := 1\<rparr>"

definition norange_node :: mdast where
  "norange_node = Parent ''paragraph'' 0 None None [Literal ''text'' 0 (Some 0) (Some 2)]"

definition block_attrs :: "child \<Rightarrow> (string \<times> string) list" where
  "block_attrs c = (case c of ElemNode b \<Rightarrow> attrs b | TextNode t \<Rightarrow> [])"

definition is_block :: "child \<Rightarrow> bool" where
  "is_block c = (case c of
      ElemNode b \<Rightarrow> tag b = ''div'' \<and> classes b = [classNamePrefix @ ''block'']
        \<and> length (attrs b) \<le> 1
    | TextNode t \<Rightarrow> False)"

definition blocks_ok :: "nat list \<Rightarrow> child list \<Rightarrow> bool" where
  "blocks_ok js new \<longleftrightarrow> list_all is_block new
     \<and> concat (map block_attrs new) = map (\<lambda>j. (''index'', show_nat j)) js"

definition append_kids :: "child list \<Rightarrow> element \<Rightarrow> element" where
  "append_kids new r = Element (tag r) (classes r) (attrs r) (kids r @ new)"

definition has_range :: "mdast \<Rightarrow> bool" where
  "has_range n \<longleftrightarrow> nstart n \<noteq> None \<and> nend n \<noteq> None"

definition head_fresh :: "element \<Rightarrow> bool" where
  "head_fresh e \<longleftrightarrow> tag e = ''div'' \<and> classes e = [] \<and> attrs e = []"

definition line_block :: "jsstring \<Rightarrow> child" where
  "line_block l = ElemNode (Element ''div'' [classNamePrefix @ ''block''] []
     [ElemNode (createLine l)])"




section \<open>The viewer: custom blocks\<close>

text \<open>
  A math node of the parsed tree, as the handler for \<open>math\<close> reads it: \<open>meta\<close>
  (\<open>None\<close> for \<open>null\<close> or \<open>undefined\<close>) and \<open>value\<close>, and the properties and
  children that the node carries in \<open>data\<close> for its hast element (\<open>hProperties\<close> and
  \<open>hChildren\<close>, set by the library that parses math: the class names
  \<open>math math-display\<close> and the value as text).
\<close>

record math_node =
  math_meta :: "string option"
  math_value :: string
  math_hProperties :: "(string \<times> string) list"
  math_hChildren :: "string list"

text \<open>A hast element as the handler builds it: tag name, properties and text children.\<close>

datatype hast =
  HElement (tagName: string) (properties: "(string \<times> string) list") (hchildren: "string list")

text \<open>
  The handler \<open>math\<close> of the processor (lines 45-49): \<open>node.meta\<close> is truthy when it
  is a string that is not empty.  Then \<open>h\<close> is called with the position of the node
  only, and the element is \<open>custom\<close> with the two properties and no child.  Otherwise
  \<open>h(node, 'div')\<close> is called with the node, and the element takes the properties
  and the children that the node carries in \<open>data\<close>.
\<close>

definition mathHandler :: "math_node \<Rightarrow> hast" where
  "mathHandler n =
     (case math_meta n of
        Some m \<Rightarrow> if m \<noteq> [] then HElement ''custom'' [(''meta'', m), (''value'', math_value n)] []
                  else HElement ''div'' (math_hProperties n) (math_hChildren n)
      | None \<Rightarrow> HElement ''div'' (math_hProperties n) (math_hChildren n))"

text \<open>
  The type of a JSX element: a tag name, a component of the caller, or a member that a
  plain object inherits from \<open>Object.prototype\<close>.
\<close>

datatype 'c jsx_type = Tag string | Component 'c | Inherited string

datatype 'c jsx = Jsx (jsx_type: "'c jsx_type") (children: string)

text \<open>The names that every plain object inherits from \<open>Object.prototype\<close>.\<close>

definition objectPrototypeKeys :: "string list" where
  "objectPrototypeKeys =
     [''constructor'', ''hasOwnProperty'', ''isPrototypeOf'', ''propertyIsEnumerable'',
      ''toLocaleString'', ''toString'', ''valueOf'', ''__proto__'',
      ''__defineGetter__'', ''__defineSetter__'', ''__lookupGetter__'', ''__lookupSetter__'']"

text \<open>
  \<open>obj[key]\<close> for an object literal whose own properties are the map \<open>obj\<close>: an own
  property first, then the prototype; \<open>None\<close> for \<open>undefined\<close>.
\<close>

definition js_get :: "(string \<rightharpoonup> 'c) \<Rightarrow> string \<Rightarrow> 'c jsx_type option" where
  "js_get obj key =
     (case obj key of
        Some c \<Rightarrow> Some (Component c)
      | None \<Rightarrow> if key \<in> set objectPrototypeKeys then Some (Inherited key) else None)"

text \<open>
  The component \<open>custom\<close> of \<open>viewerRender\<close> (lines 311-312):
  \<open>jsx(options.customBlocks[meta] ?? 'div', { children: value })\<close>.
\<close>

definition customComponent :: "(string \<rightharpoonup> 'c) \<Rightarrow> string \<Rightarrow> string \<Rightarrow> 'c jsx" where
  "customComponent customBlocks meta val =
     Jsx (case js_get customBlocks meta of Some t \<Rightarrow> t | None \<Rightarrow> Tag ''div'') val"

text \<open>
  A math node through the viewer.  The passes between the handler and the component
  are libraries outside this repository; they are taken to hand the element to the
  component registered under its tag name, with its properties, as the schema of the
  source allows for \<open>custom\<close> (tag \<open>custom\<close>, attributes \<open>meta\<close> and \<open>value\<close>).
  Every other element is rendered by those libraries (the math of a node without
  \<open>meta\<close> by the KaTeX pass): \<open>render\<close> stands for what they make of it.
\<close>

definition viewMath :: "(string \<rightharpoonup> 'c) \<Rightarrow> (hast \<Rightarrow> 'c jsx) \<Rightarrow> math_node \<Rightarrow> 'c jsx" where
  "viewMath customBlocks render n =
     (case mathHandler n of
        HElement t props cs \<Rightarrow>
          if t = ''custom''
          then customComponent customBlocks (the (map_of props ''meta'')) (the (map_of props ''value''))
          else render (HElement t props cs))"

text \<open>The node types whose lines get the markers \<open>first\<close> and \<open>last\<close>.\<close>

definition opaque :: "string \<Rightarrow> bool" where
  "opaque ty \<longleftrightarrow> ty = ''html'' \<or> ty = ''code'' \<or> ty = ''math''"

text \<open>The text node of a line that is not empty.\<close>

definition text_kids :: "jsstring \<Rightarrow> child list" where
  "text_kids l = (if l = [] then [] else [TextNode l])"

text \<open>The text \<open>"x <a\nb>"\<close>: a paragraph of the text \<open>x\<close> and a raw html tag
  written over two lines.\<close>

definition inline_html_src :: jsstring where
  "inline_html_src = ascii ''x <a'' @ [NL] @ ascii ''b>''"

definition inline_html_tree :: "mdast list" where
  "inline_html_tree =
     [Parent ''paragraph'' 0 (Some 0) (Some 7)
        [Literal ''text'' 0 (Some 0) (Some 2), Literal ''html'' 0 (Some 2) (Some 7)]]"

text \<open>The text \<open>"ab\ncd"\<close>, one code node.\<close>

definition code_src :: jsstring where
  "code_src = ascii ''ab'' @ [NL] @ ascii ''cd''"

definition code_node :: mdast where
  "code_node = Literal ''code'' 0 (Some 0) (Some 5)"

text \<open>All nodes below an element, in document order.\<close>

fun desc :: "element \<Rightarrow> child list" and self_desc :: "child \<Rightarrow> child list" where
  "desc (Element t c a ks) = concat (map self_desc ks)"
| "self_desc (TextNode s) = [TextNode s]"
| "self_desc (ElemNode e) = ElemNode e # desc e"

text \<open>The two marker classes.\<close>

definition marker :: "string \<Rightarrow> bool" where
  "marker c \<longleftrightarrow> c = classNamePrefix @ ''first'' \<or> c = classNamePrefix @ ''last''"

text \<open>No element at or below this one carries a marker class.\<close>

fun unmarked :: "element \<Rightarrow> bool" and unmarked_child :: "child \<Rightarrow> bool" where
  "unmarked (Element t c a ks) = ((\<forall>x\<in>set c. \<not> marker x) \<and> (\<forall>k\<in>set ks. unmarked_child k))"
| "unmarked_child (TextNode s) = True"
| "unmarked_child (ElemNode e) = unmarked e"

text \<open>A tree without a node of an opaque type (and without a node type that is
  spelled as a marker).\<close>

fun plain :: "mdast \<Rightarrow> bool" where
  "plain (Literal ty d s e) = (\<not> opaque ty \<and> ty \<noteq> ''first'' \<and> ty \<noteq> ''last'')"
| "plain (Parent ty d s e cs) =
     (\<not> opaque ty \<and> ty \<noteq> ''first'' \<and> ty \<noteq> ''last'' \<and> (\<forall>c\<in>set cs. plain c))"

text \<open>A build state without markers, all of whose open nodes are plain.\<close>

definition unmarked_state :: "state \<Rightarrow> bool" where
  "unmarked_state st \<longleftrightarrow> unmarked (rootEl st) \<and> unmarked (block st)
     \<and> (\<forall>f\<in>set (stack st). unmarked (el f) \<and> plain (node f))"






section \<open>The pass over a store of DOM objects\<close>

text \<open>
  The DOM objects of the document as the code has them: every \<open>createElement\<close> makes
  a new object, \<open>classList.add\<close>, \<open>append\<close> and \<open>setAttribute\<close> change an object in
  place, and a child is a text or a reference to another object.  The store is the
  list of the objects made so far; the address of an object is its position.
\<close>

datatype dchild = DText jsstring | DRef nat

record cell =
  ctag :: string
  cclasses :: "string list"
  cattrs :: "(string \<times> string) list"
  ckids :: "dchild list"

type_synonym dom = "cell list"

text \<open>The tree that the store holds below an address.\<close>

inductive repr :: "dom \<Rightarrow> nat \<Rightarrow> element \<Rightarrow> bool"
  and repr_kids :: "dom \<Rightarrow> dchild list \<Rightarrow> child list \<Rightarrow> bool" where
  repr_node: "a < length h \<Longrightarrow> repr_kids h (ckids (h ! a)) ks \<Longrightarrow>
    repr h a (Element (ctag (h ! a)) (cclasses (h ! a)) (cattrs (h ! a)) ks)"
| repr_nil: "repr_kids h [] []"
| repr_text: "repr_kids h ks es \<Longrightarrow> repr_kids h (DText s # ks) (TextNode s # es)"
| repr_ref: "repr h b e \<Longrightarrow> repr_kids h ks es \<Longrightarrow> repr_kids h (DRef b # ks) (ElemNode e # es)"

code_pred (modes: i \<Rightarrow> i \<Rightarrow> o \<Rightarrow> bool as tree_at) repr .

text \<open>No object of the store has the object at \<open>a\<close> as a child.\<close>

definition unref :: "dom \<Rightarrow> nat \<Rightarrow> bool" where
  "unref h a \<longleftrightarrow> (\<forall>c\<in>set h. DRef a \<notin> set (ckids c))"

text \<open>Every reference of the store is to an object of the store.\<close>

fun ref_ok :: "nat \<Rightarrow> dchild \<Rightarrow> bool" where
  "ref_ok n (DText s) = True"
| "ref_ok n (DRef b) = (b < n)"

definition wf_dom :: "dom \<Rightarrow> bool" where
  "wf_dom h \<longleftrightarrow> (\<forall>c\<in>set h. \<forall>k\<in>set (ckids c). ref_ok (length h) k)"

text \<open>\<open>document.createElement(t)\<close>: the new object is at the address \<open>length h\<close>.\<close>

definition alloc :: "string \<Rightarrow> dom \<Rightarrow> dom" where
  "alloc t h = h @ [\<lparr>ctag = t, cclasses = [], cattrs = [], ckids = []\<rparr>]"

definition classList_add_h :: "string \<Rightarrow> nat \<Rightarrow> dom \<Rightarrow> dom" where
  "classList_add_h c a h =
     (if c \<in> set (cclasses (h ! a)) then h
      else h[a := (h ! a)\<lparr>cclasses := cclasses (h ! a) @ [c]\<rparr>])"

definition append_h :: "dchild \<Rightarrow> nat \<Rightarrow> dom \<Rightarrow> dom" where
  "append_h k a h = h[a := (h ! a)\<lparr>ckids := ckids (h ! a) @ [k]\<rparr>]"

definition setAttribute_h :: "string \<Rightarrow> string \<Rightarrow> nat \<Rightarrow> dom \<Rightarrow> dom" where
  "setAttribute_h k v a h = h[a := (h ! a)\<lparr>cattrs := update_attr k v (cattrs (h ! a))\<rparr>]"

text \<open>The objects that are still being filled, with the trees they hold: distinct
  objects of the store that nothing refers to.\<close>

definition cfg :: "dom \<Rightarrow> nat list \<Rightarrow> element list \<Rightarrow> bool" where
  "cfg h ps vs \<longleftrightarrow> wf_dom h \<and> distinct ps \<and> length ps = length vs
     \<and> (\<forall>i<length ps. ps ! i < length h \<and> unref h (ps ! i) \<and> repr h (ps ! i) (vs ! i))"

text \<open>The build state of one pass over the store: the frames, the block and the root
  hold the addresses of their objects.\<close>

record frame_h =
  node_h :: mdast
  el_h :: nat
  first_h :: bool

record state_h =
  scanOffset_h :: nat
  stack_h :: "frame_h list"
  block_h :: nat
  rootEl_h :: nat
  dom_h :: dom

definition addStyle_h :: "mdast \<Rightarrow> bool \<Rightarrow> bool \<Rightarrow> nat \<Rightarrow> dom \<Rightarrow> dom" where
  "addStyle_h n isFirst isLast a h =
     (let h1 = classList_add_h (classNamePrefix @ ntype n) a h in
      if ntype n = ''heading'' then
        classList_add_h (classNamePrefix @ ''heading'' @ show_nat (ndepth n)) a h1
      else if ntype n = ''html'' \<or> ntype n = ''code'' \<or> ntype n = ''math'' then
        (let h2 = (if isFirst then classList_add_h (classNamePrefix @ ''first'') a h1 else h1)
         in if isLast then classList_add_h (classNamePrefix @ ''last'') a h2 else h2)
      else h1)"

text \<open>\<open>pushElement(index, last)\<close> (lines 114-141), with the objects changed in place.\<close>

definition pushElement_h :: "nat \<Rightarrow> bool \<Rightarrow> state_h \<Rightarrow> state_h option" where
  "pushElement_h index isLast st =
     (if index < length (stack_h st) then
        let n = node_h (stack_h st ! index);
            isFirst = first_h (stack_h st ! index);
            styleElement = el_h (stack_h st !
              (if index \<noteq> 0 \<and> \<not> isFlowContent (node_h (stack_h st ! (index - 1)))
               then index else 0));
            h1 = addStyle_h n isFirst isLast styleElement (dom_h st);
            parentElement = (if index \<noteq> 0 then el_h (stack_h st ! (index - 1)) else block_h st);
            h2 = append_h (DRef (el_h (stack_h st ! index))) parentElement h1;
            h3 = alloc (if index \<noteq> 0 then ''span'' else ''div'') h2
        in Some (st\<lparr>stack_h := (stack_h st)[index := (stack_h st ! index)
                     \<lparr>el_h := length h2, first_h := False\<rparr>],
                   dom_h := h3\<rparr>)
      else None)"

text \<open>The open objects of a state, and the trees of the state of the pass over values.\<close>

definition opens :: "state_h \<Rightarrow> nat list" where
  "opens hs = rootEl_h hs # block_h hs # map el_h (stack_h hs)"

definition vals :: "state \<Rightarrow> element list" where
  "vals st = rootEl st # block st # map el (stack st)"

text \<open>The state over the store holds the state over values.\<close>

definition sim :: "state_h \<Rightarrow> state \<Rightarrow> bool" where
  "sim hs st \<longleftrightarrow> cfg (dom_h hs) (opens hs) (vals st)
     \<and> scanOffset_h hs = scanOffset st
     \<and> map node_h (stack_h hs) = map node (stack st)
     \<and> map first_h (stack_h hs) = map first (stack st)"

text \<open>\<open>pushBlock()\<close> (lines 146-150).\<close>

definition pushBlock_h :: "state_h \<Rightarrow> state_h" where
  "pushBlock_h st =
     (let h1 = classList_add_h (classNamePrefix @ ''block'') (block_h st) (dom_h st);
          h2 = append_h (DRef (block_h st)) (rootEl_h st) h1
      in st\<lparr>block_h := length h2, dom_h := alloc ''div'' h2\<rparr>)"

text \<open>\<open>createDelimiter(text)\<close> and \<open>createLine(text)\<close>: the address of the new object
  and the store.\<close>

definition createDelimiter_h :: "jsstring \<Rightarrow> dom \<Rightarrow> nat \<times> dom" where
  "createDelimiter_h text h =
     (length h, classList_add_h (classNamePrefix @ ''delimiter'') (length h)
        (append_h (DText text) (length h) (alloc ''span'' h)))"

definition createLine_h :: "jsstring \<Rightarrow> dom \<Rightarrow> nat \<times> dom" where
  "createLine_h text h =
     (length h, append_h (DText (text @ [ZWSP])) (length h) (alloc ''div'' h))"

definition appendToFrame_h :: "nat \<Rightarrow> dchild \<Rightarrow> state_h \<Rightarrow> state_h option" where
  "appendToFrame_h k c st =
     (if k < length (stack_h st)
      then Some (st\<lparr>dom_h := append_h c (el_h (stack_h st ! k)) (dom_h st)\<rparr>)
      else None)"

definition appendLine_h :: "jsstring \<Rightarrow> bool \<Rightarrow> state_h \<Rightarrow> state_h option" where
  "appendLine_h line delimiter st =
     (if line \<noteq> [] then
        (if delimiter then
           (case createDelimiter_h line (dom_h st) of
              (a, h1) \<Rightarrow> appendToFrame_h (length (stack_h st) - 1) (DRef a) (st\<lparr>dom_h := h1\<rparr>))
         else appendToFrame_h (length (stack_h st) - 1) (DText line) st)
      else Some st)"

fun flushFrames_h :: "nat \<Rightarrow> state_h \<Rightarrow> state_h option" where
  "flushFrames_h 0 st = Some st"
| "flushFrames_h (Suc j) st = pushElement_h (Suc j) False st \<bind> flushFrames_h j"

definition breakLine_h :: "state_h \<Rightarrow> state_h option" where
  "breakLine_h st =
     flushFrames_h (length (stack_h st) - 1) st \<bind> appendToFrame_h 0 (DText [ZWSP])
       \<bind> pushElement_h 0 False"

fun addLines_h :: "jsstring list \<Rightarrow> bool \<Rightarrow> state_h \<Rightarrow> state_h option" where
  "addLines_h [] delimiter st = Some st"
| "addLines_h (l # ls) delimiter st =
     breakLine_h st \<bind> appendLine_h l delimiter \<bind> addLines_h ls delimiter"

fun addBlockLines_h :: "jsstring list \<Rightarrow> state_h \<Rightarrow> state_h" where
  "addBlockLines_h [] st = st"
| "addBlockLines_h (l # ls) st =
     addBlockLines_h ls
       ((pushBlock_h (case createLine_h l (dom_h st) of
            (a, h1) \<Rightarrow> st\<lparr>dom_h := append_h (DRef a) (block_h st) h1\<rparr>))
          \<lparr>scanOffset_h := scanOffset_h st + (length l + 1)\<rparr>)"

definition addText_h :: "jsstring \<Rightarrow> bool \<Rightarrow> state_h \<Rightarrow> state_h option" where
  "addText_h text delimiter st =
     (let lines = split_nl text in
      if stack_h st \<noteq> [] then
        appendLine_h (hd lines) delimiter st \<bind> addLines_h (tl lines) delimiter
          \<bind> (\<lambda>st1. Some (st1\<lparr>scanOffset_h := scanOffset_h st1 + length text\<rparr>))
      else Some (addBlockLines_h (butlast lines) st))"

definition closeFrame_h :: "nat \<Rightarrow> state_h \<Rightarrow> state_h option" where
  "closeFrame_h i st =
     (if length (stack_h st) > 1 then pushElement_h (length (stack_h st) - 1) True st
      else
        appendToFrame_h 0 (DText [ZWSP]) st \<bind> pushElement_h 0 True
          \<bind> (\<lambda>st1. Some ((pushBlock_h (st1\<lparr>dom_h :=
                  setAttribute_h ''index'' (show_nat i) (block_h st1) (dom_h st1)\<rparr>))
                \<lparr>scanOffset_h := scanOffset_h st1 + 1\<rparr>)))
     \<bind> (\<lambda>st2. Some (st2\<lparr>stack_h := butlast (stack_h st2)\<rparr>))"

fun getChildren_from_h :: "jsstring \<Rightarrow> mdast list \<Rightarrow> nat \<Rightarrow> nat \<Rightarrow> state_h \<Rightarrow> state_h option"
and visitNode_h :: "jsstring \<Rightarrow> mdast \<Rightarrow> nat \<Rightarrow> state_h \<Rightarrow> state_h option" where
  "getChildren_from_h S [] i parentEndOffset st =
     addText_h (js_slice S (scanOffset_h st) parentEndOffset) True st"
| "getChildren_from_h S (n # ns) i parentEndOffset st =
     visitNode_h S n i st \<bind> getChildren_from_h S ns (Suc i) parentEndOffset"
| "visitNode_h S n i st =
     (case nstart n of None \<Rightarrow> Some st
      | Some startOffset0 \<Rightarrow>
     (case nend n of None \<Rightarrow> Some st
      | Some endOffset \<Rightarrow>
        let startOffset = (if startOffset0 < scanOffset_h st then scanOffset_h st else startOffset0) in
        if startOffset \<ge> endOffset then Some st
        else
          addText_h (js_slice S (scanOffset_h st) startOffset) True st
          \<bind> (\<lambda>st1. Some (st1\<lparr>stack_h := stack_h st1 @
                  [\<lparr>node_h = n, el_h = length (dom_h st1), first_h = True\<rparr>],
                  dom_h := alloc (if stack_h st1 \<noteq> [] then ''span'' else ''div'') (dom_h st1)\<rparr>))
          \<bind> (\<lambda>st2. case n of
                  Parent _ _ _ _ cs \<Rightarrow> getChildren_from_h S cs 0 endOffset st2
                | Literal _ _ _ _ \<Rightarrow> addText_h (js_slice S (scanOffset_h st2) endOffset) False st2)
          \<bind> closeFrame_h i))"

definition finish_h :: "jsstring \<Rightarrow> state_h \<Rightarrow> state_h" where
  "finish_h S st =
     (if scanOffset_h st \<le> length S
      then pushBlock_h (case createLine_h (drop (scanOffset_h st) S) (dom_h st) of
             (a, h1) \<Rightarrow> st\<lparr>dom_h := append_h (DRef a) (block_h st) h1\<rparr>)
      else st)"

text \<open>
  \<open>editorRender(sourceCode)\<close> in a document that holds the objects \<open>h\<close> already:
  \<open>block\<close> is made first (line 90) and the root \<open>el\<close> second (line 95).  The result is
  the address of the root and the store after the call.
\<close>

definition init_state_h :: "dom \<Rightarrow> state_h" where
  "init_state_h h = \<lparr>scanOffset_h = 0, stack_h = [], block_h = length h,
     rootEl_h = Suc (length h), dom_h = alloc ''div'' (alloc ''div'' h)\<rparr>"

definition editorRender_h :: "jsstring \<Rightarrow> mdast list \<Rightarrow> dom \<Rightarrow> (nat \<times> dom) option" where
  "editorRender_h S nodes h =
     getChildren_from_h S nodes 0 (length S) (init_state_h h)
       \<bind> (\<lambda>st. Some (rootEl_h (finish_h S st), dom_h (finish_h S st)))"

text \<open>A document that holds one object already, which has itself as a child.\<close>

definition busy_dom :: dom where
  "busy_dom = [\<lparr>ctag = ''p'', cclasses = [''old''], cattrs = [],
     ckids = [DText (ascii ''x''), DRef 0]\<rparr>]"

section \<open>Scenario inputs\<close>

text \<open>Scenario B: the text \<open>"para1\n\npara2"\<close> and its two paragraphs.\<close>

definition scenarioB_src :: jsstring where
  "scenarioB_src = ascii ''para1'' @ [NL, NL] @ ascii ''para2''"

definition scenarioB_tree :: "mdast list" where
  "scenarioB_tree =
     [Parent ''paragraph'' 0 (Some 0) (Some 5) [Literal ''text'' 0 (Some 0) (Some 5)],
      Parent ''paragraph'' 0 (Some 7) (Some 12) [Literal ''text'' 0 (Some 7) (Some 12)]]"

text \<open>A text of two characters with one top-level node over the first character only.\<close>

definition midline_src :: jsstring where
  "midline_src = ascii ''ab''"

definition midline_tree :: "mdast list" where
  "midline_tree = [Literal ''text'' 0 (Some 0) (Some 1)]"

text \<open>The text \<open>"# T\n\n> q1\n> q2\n"\<close>: a heading, an empty line, and a block quote of
  two lines.\<close>

definition quote_src :: jsstring where
  "quote_src = ascii ''# T'' @ [NL, NL] @ ascii ''> q1'' @ [NL] @ ascii ''> q2'' @ [NL]"

definition quote_tree :: "mdast list" where
  "quote_tree =
     [Parent ''heading'' 1 (Some 0) (Some 3) [Literal ''text'' 0 (Some 2) (Some 3)],
      Parent ''blockquote'' 0 (Some 5) (Some 14)
        [Parent ''paragraph'' 0 (Some 7) (Some 14) [Literal ''text'' 0 (Some 7) (Some 14)]]]"

lemma createElement_sel [simp]:
  "tag (createElement t) = t" "classes (createElement t) = []"
  "attrs (createElement t) = []" "kids (createElement t) = []"
  by (simp_all add: createElement_def)

lemma classList_add_sel [simp]:
  "tag (classList_add c e) = tag e" "attrs (classList_add c e) = attrs e"
  "kids (classList_add c e) = kids e"
  by (simp_all add: classList_add_def)

lemma classList_add_classes:
  "set (classes (classList_add c e)) = insert c (set (classes e))"
  by (auto simp: classList_add_def)

lemma append_child_sel [simp]:
  "tag (append_child c e) = tag e" "classes (append_child c e) = classes e"
  "attrs (append_child c e) = attrs e" "kids (append_child c e) = kids e @ [c]"
  by (simp_all add: append_child_def)

lemma setAttribute_sel [simp]:
  "tag (setAttribute k v e) = tag e" "classes (setAttribute k v e) = classes e"
  "kids (setAttribute k v e) = kids e"
  by (simp_all add: setAttribute_def)

lemma addStyle_sel [simp]:
  "tag (addStyle n a b e) = tag e" "attrs (addStyle n a b e) = attrs e"
  "kids (addStyle n a b e) = kids e"
  by (simp_all add: addStyle_def Let_def)

lemma length_map_el [simp]: "length (map_el k f stk) = length stk"
  by (simp add: map_el_def)

lemma nth_map_el:
  "j < length stk \<Longrightarrow>
   map_el k f stk ! j = (if j = k then (stk ! j)\<lparr>el := f (el (stk ! j))\<rparr> else stk ! j)"
  by (simp add: map_el_def nth_list_update)

lemma map_node_map_el [simp]: "map node (map_el k f stk) = map node stk"
  by (rule nth_equalityI) (simp_all add: nth_map_el)

lemma pushElement_Some:
  "index < length (stack st) \<Longrightarrow> \<exists>st'. pushElement index l st = Some st'"
  by (simp add: pushElement_def Let_def)

lemma pushElement_None:
  "\<not> index < length (stack st) \<Longrightarrow> pushElement index l st = None"
  by (simp add: pushElement_def)

lemma length_styled [simp]: "length (styled index l stk) = length stk"
  by (simp add: styled_def)

lemma map_node_styled [simp]: "map node (styled index l stk) = map node stk"
  by (simp add: styled_def)

lemma pushElement_inner:
  "0 < index \<Longrightarrow> index < length (stack st) \<Longrightarrow>
   pushElement index l st =
     Some (st\<lparr>stack :=
       (map_el (index - 1) (append_child (ElemNode (el (styled index l (stack st) ! index))))
          (styled index l (stack st)))
       [index := (styled index l (stack st) ! index)\<lparr>el := createElement ''span'', first := False\<rparr>]\<rparr>)"
  by (simp add: pushElement_def Let_def styled_def nth_map_el)

lemma pushElement_outer:
  "0 < length (stack st) \<Longrightarrow>
   pushElement 0 l st =
     Some (st\<lparr>stack := (styled 0 l (stack st))
                [0 := (styled 0 l (stack st) ! 0)\<lparr>el := createElement ''div'', first := False\<rparr>],
              block := append_child (ElemNode (el (styled 0 l (stack st) ! 0))) (block st)\<rparr>)"
  by (simp add: pushElement_def Let_def styled_def)

lemma map_node_update:
  "node x = node (stk ! i) \<Longrightarrow> map node (stk[i := x]) = map node stk"
  by (cases "i < length stk") (simp_all add: map_update list_update_same_conv list_update_beyond)

lemma node_styled_nth [simp]:
  "j < length stk \<Longrightarrow> node (styled index l stk ! j) = node (stk ! j)"
  by (simp add: styled_def nth_map_el)

lemma node_map_el_nth [simp]:
  "j < length stk \<Longrightarrow> node (map_el k f stk ! j) = node (stk ! j)"
  by (simp add: nth_map_el)

lemma pushElement_fields:
  assumes "pushElement index l st = Some st'"
  shows "scanOffset st' = scanOffset st" and "rootEl st' = rootEl st"
    and "map node (stack st') = map node (stack st)"
    and "length (stack st') = length (stack st)"
    and "index \<noteq> 0 \<Longrightarrow> block st' = block st"
    and "index < length (stack st)"
proof -
  have lt: "index < length (stack st)"
    using assms by (cases "index < length (stack st)") (simp_all add: pushElement_None)
  show "index < length (stack st)" by (rule lt)
  show "scanOffset st' = scanOffset st"
    using assms lt by (cases "index = 0") (auto simp: pushElement_inner pushElement_outer)
  show "rootEl st' = rootEl st"
    using assms lt by (cases "index = 0") (auto simp: pushElement_inner pushElement_outer)
  show "index \<noteq> 0 \<Longrightarrow> block st' = block st"
    using assms lt by (auto simp: pushElement_inner)
  show m: "map node (stack st') = map node (stack st)"
  proof (cases "index = 0")
    case True
    then show ?thesis using assms lt
      by (auto simp: pushElement_outer intro!: trans [OF map_node_update])
  next
    case False
    then show ?thesis using assms lt
      by (auto simp: pushElement_inner intro!: trans [OF map_node_update])
  qed
  show "length (stack st') = length (stack st)"
    using m by (metis length_map)
qed

lemma appendToFrame_Some:
  "k < length (stack st) \<Longrightarrow> \<exists>st'. appendToFrame k c st = Some st'"
  by (simp add: appendToFrame_def)

lemma appendToFrame_fields:
  assumes "appendToFrame k c st = Some st'"
  shows "scanOffset st' = scanOffset st" and "rootEl st' = rootEl st"
    and "block st' = block st" and "map node (stack st') = map node (stack st)"
    and "length (stack st') = length (stack st)"
  using assms by (auto simp: appendToFrame_def split: if_splits)

lemma appendLine_Some:
  "stack st \<noteq> [] \<Longrightarrow> \<exists>st'. appendLine l d st = Some st'"
  by (simp add: appendLine_def appendToFrame_def)

lemma appendLine_fields:
  assumes "appendLine l d st = Some st'"
  shows "scanOffset st' = scanOffset st" and "rootEl st' = rootEl st"
    and "block st' = block st" and "map node (stack st') = map node (stack st)"
    and "length (stack st') = length (stack st)"
  using assms by (auto simp: appendLine_def appendToFrame_def split: if_splits)

lemma flushFrames_Some:
  "j < length (stack st) \<Longrightarrow> \<exists>st'. flushFrames j st = Some st'"
proof (induction j arbitrary: st)
  case 0
  then show ?case by simp
next
  case (Suc j)
  from Suc.prems obtain st1 where p: "pushElement (Suc j) False st = Some st1"
    using pushElement_Some by blast
  then have "j < length (stack st1)"
    using Suc.prems pushElement_fields(4) [OF p] by simp
  from Suc.IH [OF this] p show ?case by simp
qed

lemma flushFrames_fields:
  assumes "flushFrames j st = Some st'"
  shows "scanOffset st' = scanOffset st \<and> rootEl st' = rootEl st \<and> block st' = block st
    \<and> map node (stack st') = map node (stack st)"
  using assms
proof (induction j arbitrary: st)
  case 0
  then show ?case by simp
next
  case (Suc j)
  from Suc.prems obtain st1 where p: "pushElement (Suc j) False st = Some st1"
    and f: "flushFrames j st1 = Some st'"
    by (auto simp: bind_eq_Some_conv)
  show ?case
    using Suc.IH [OF f] pushElement_fields [OF p] by simp
qed

lemma breakLine_Some:
  assumes "stack st \<noteq> []"
  shows "\<exists>st'. breakLine st = Some st'"
proof -
  have "length (stack st) - 1 < length (stack st)" using assms by (cases "stack st") simp_all
  then obtain st1 where f: "flushFrames (length (stack st) - 1) st = Some st1"
    using flushFrames_Some by blast
  have l1: "length (stack st1) = length (stack st)"
    using flushFrames_fields [OF f] by (metis length_map)
  then have "0 < length (stack st1)" using assms by simp
  then obtain st2 where a: "appendToFrame 0 (TextNode [ZWSP]) st1 = Some st2"
    using appendToFrame_Some by blast
  have "0 < length (stack st2)"
    using appendToFrame_fields(5) [OF a] l1 assms by simp
  then obtain st3 where "pushElement 0 False st2 = Some st3"
    using pushElement_Some by blast
  with f a show ?thesis by (simp add: breakLine_def)
qed

lemma breakLine_fields:
  assumes "breakLine st = Some st'"
  shows "scanOffset st' = scanOffset st" and "rootEl st' = rootEl st"
    and "map node (stack st') = map node (stack st)"
proof -
  from assms obtain st1 st2 where f: "flushFrames (length (stack st) - 1) st = Some st1"
    and a: "appendToFrame 0 (TextNode [ZWSP]) st1 = Some st2"
    and p: "pushElement 0 False st2 = Some st'"
    by (auto simp: breakLine_def bind_eq_Some_conv)
  show "scanOffset st' = scanOffset st" "rootEl st' = rootEl st"
    "map node (stack st') = map node (stack st)"
    using flushFrames_fields [OF f] appendToFrame_fields [OF a] pushElement_fields [OF p]
    by simp_all
qed

lemma stack_nonempty_cong:
  "map node (stack st') = map node (stack st) \<Longrightarrow> (stack st' \<noteq> []) = (stack st \<noteq> [])"
  by (metis map_is_Nil_conv)

lemma addLines_Some:
  "stack st \<noteq> [] \<Longrightarrow> \<exists>st'. addLines ls d st = Some st'"
proof (induction ls arbitrary: st)
  case Nil
  then show ?case by simp
next
  case (Cons l ls)
  from Cons.prems obtain st1 where b: "breakLine st = Some st1"
    using breakLine_Some by blast
  have n1: "stack st1 \<noteq> []"
    using breakLine_fields(3) [OF b] Cons.prems stack_nonempty_cong by blast
  then obtain st2 where a: "appendLine l d st1 = Some st2"
    using appendLine_Some by blast
  have "stack st2 \<noteq> []"
    using appendLine_fields(4) [OF a] n1 stack_nonempty_cong by blast
  from Cons.IH [OF this] b a show ?case by simp
qed

lemma addLines_fields:
  assumes "addLines ls d st = Some st'"
  shows "scanOffset st' = scanOffset st \<and> rootEl st' = rootEl st
    \<and> map node (stack st') = map node (stack st)"
  using assms
proof (induction ls arbitrary: st)
  case Nil
  then show ?case by simp
next
  case (Cons l ls)
  from Cons.prems obtain st1 st2 where b: "breakLine st = Some st1"
    and a: "appendLine l d st1 = Some st2" and r: "addLines ls d st2 = Some st'"
    by (auto simp: bind_eq_Some_conv)
  show ?case
    using Cons.IH [OF r] breakLine_fields [OF b] appendLine_fields [OF a] by simp
qed

lemma addBlockLines_fields:
  "stack (addBlockLines ls st) = stack st \<and> scanOffset st \<le> scanOffset (addBlockLines ls st)"
proof (induction ls arbitrary: st)
  case Nil
  then show ?case by simp
next
  case (Cons l ls)
  show ?case
    using Cons.IH [of "(pushBlock (st\<lparr>block := append_child (ElemNode (createLine l)) (block st)\<rparr>))
          \<lparr>scanOffset := scanOffset st + (length l + 1)\<rparr>"]
    by (simp add: pushBlock_def)
qed

lemma addText_Some: "\<exists>st'. addText text d st = Some st'"
proof (cases "stack st = []")
  case True
  then show ?thesis by (simp add: addText_def)
next
  case False
  then obtain st1 where a: "appendLine (hd (split_nl text)) d st = Some st1"
    using appendLine_Some by blast
  have "stack st1 \<noteq> []"
    using appendLine_fields(4) [OF a] False stack_nonempty_cong by blast
  then obtain st2 where "addLines (tl (split_nl text)) d st1 = Some st2"
    using addLines_Some by blast
  with a False show ?thesis by (simp add: addText_def Let_def)
qed

lemma addText_fields:
  assumes "addText text d st = Some st'"
  shows "map node (stack st') = map node (stack st)"
    and "scanOffset st \<le> scanOffset st'"
    and "stack st \<noteq> [] \<Longrightarrow> scanOffset st' = scanOffset st + length text"
    and "stack st \<noteq> [] \<Longrightarrow> rootEl st' = rootEl st"
proof -
  have "map node (stack st') = map node (stack st) \<and> scanOffset st \<le> scanOffset st'
    \<and> (stack st \<noteq> [] \<longrightarrow> scanOffset st' = scanOffset st + length text \<and> rootEl st' = rootEl st)"
  proof (cases "stack st = []")
    case True
    then show ?thesis using assms addBlockLines_fields [of "butlast (split_nl text)" st]
      by (auto simp: addText_def)
  next
    case False
    with assms obtain st1 st2 where a: "appendLine (hd (split_nl text)) d st = Some st1"
      and r: "addLines (tl (split_nl text)) d st1 = Some st2"
      and e: "st' = st2\<lparr>scanOffset := scanOffset st2 + length text\<rparr>"
      by (auto simp: addText_def Let_def bind_eq_Some_conv)
    show ?thesis
      using appendLine_fields [OF a] addLines_fields [OF r] e False by simp
  qed
  then show "map node (stack st') = map node (stack st)"
    and "scanOffset st \<le> scanOffset st'"
    and "stack st \<noteq> [] \<Longrightarrow> scanOffset st' = scanOffset st + length text"
    and "stack st \<noteq> [] \<Longrightarrow> rootEl st' = rootEl st"
    by simp_all
qed

lemma closeFrame_Some:
  assumes "stack st \<noteq> []"
  shows "\<exists>st'. closeFrame i st = Some st'"
proof (cases "length (stack st) > 1")
  case True
  then have "length (stack st) - 1 < length (stack st)" by simp
  then obtain st1 where "pushElement (length (stack st) - 1) True st = Some st1"
    using pushElement_Some by blast
  with True show ?thesis by (simp add: closeFrame_def)
next
  case False
  have "0 < length (stack st)" using assms by simp
  then obtain st1 where a: "appendToFrame 0 (TextNode [ZWSP]) st = Some st1"
    using appendToFrame_Some by blast
  have "0 < length (stack st1)"
    using appendToFrame_fields(5) [OF a] assms by simp
  then obtain st2 where "pushElement 0 True st1 = Some st2"
    using pushElement_Some by blast
  with a False show ?thesis by (simp add: closeFrame_def)
qed

lemma closeFrame_fields:
  assumes "closeFrame i st = Some st'"
  shows "map node (stack st') = butlast (map node (stack st))"
    and "scanOffset st \<le> scanOffset st'"
    and "length (stack st) > 1 \<Longrightarrow> scanOffset st' = scanOffset st \<and> rootEl st' = rootEl st"
    and "\<not> length (stack st) > 1 \<Longrightarrow> scanOffset st' = scanOffset st + 1"
proof -
  have "map node (stack st') = butlast (map node (stack st)) \<and> scanOffset st \<le> scanOffset st'
    \<and> (length (stack st) > 1 \<longrightarrow> scanOffset st' = scanOffset st \<and> rootEl st' = rootEl st)
    \<and> (\<not> length (stack st) > 1 \<longrightarrow> scanOffset st' = scanOffset st + 1)"
  proof (cases "length (stack st) > 1")
    case True
    with assms obtain st1 where p: "pushElement (length (stack st) - 1) True st = Some st1"
      and e: "st' = st1\<lparr>stack := butlast (stack st1)\<rparr>"
      by (auto simp: closeFrame_def bind_eq_Some_conv)
    show ?thesis using pushElement_fields [OF p] e True by (simp add: map_butlast)
  next
    case False
    with assms obtain st1 st2 where a: "appendToFrame 0 (TextNode [ZWSP]) st = Some st1"
      and p: "pushElement 0 True st1 = Some st2"
      and e: "st' = (pushBlock (st2\<lparr>block := setAttribute ''index'' (show_nat i) (block st2)\<rparr>))
                \<lparr>scanOffset := scanOffset st2 + 1, stack := butlast (stack st2)\<rparr>"
      by (auto simp: closeFrame_def bind_eq_Some_conv pushBlock_def)
    show ?thesis
      using appendToFrame_fields [OF a] pushElement_fields [OF p] e False
      by (simp add: map_butlast pushBlock_def)
  qed
  then show "map node (stack st') = butlast (map node (stack st))"
    and "scanOffset st \<le> scanOffset st'"
    and "length (stack st) > 1 \<Longrightarrow> scanOffset st' = scanOffset st \<and> rootEl st' = rootEl st"
    and "\<not> length (stack st) > 1 \<Longrightarrow> scanOffset st' = scanOffset st + 1"
    by simp_all
qed

lemma visitNode_skip:
  "nstart n = None \<or> nend n = None \<or> the (nend n) \<le> max (the (nstart n)) (scanOffset st)
   \<Longrightarrow> visitNode S n i st = Some st"
  by (auto split: option.splits)

lemma visitNode_visit:
  assumes "nstart n = Some so" "nend n = Some eo" "max so (scanOffset st) < eo"
  shows "visitNode S n i st =
     addText (js_slice S (scanOffset st) (max so (scanOffset st))) True st
       \<bind> (\<lambda>st1. visitBody S n eo (pushFrame n st1) \<bind> closeFrame i)"
proof -
  have m: "(if so < scanOffset st then scanOffset st else so) = max so (scanOffset st)"
    by (simp add: max_def)
  obtain st1 where "addText (js_slice S (scanOffset st) (max so (scanOffset st))) True st = Some st1"
    using addText_Some by blast
  then show ?thesis using assms
    by (simp add: m Let_def visitBody_def pushFrame_def del: max_less_iff_conj)
qed

lemma visit_total_aux:
  "(\<exists>st'. getChildren_from S ns i pe st = Some st' \<and> map node (stack st') = map node (stack st))"
  "(\<exists>st'. visitNode S n i st = Some st' \<and> map node (stack st') = map node (stack st))"
proof (induction S ns i pe st and S n i st rule: getChildren_from_visitNode.induct)
  case (1 S i parentEndOffset st)
  obtain st' where a: "addText (js_slice S (scanOffset st) parentEndOffset) True st = Some st'"
    using addText_Some by blast
  then show ?case using addText_fields(1) [OF a] by simp
next
  case (2 S n ns i parentEndOffset st)
  from 2(1) obtain st1 where v: "visitNode S n i st = Some st1"
    and m: "map node (stack st1) = map node (stack st)" by blast
  from 2(2) [OF v] m v show ?case by auto
next
  case (3 S n i st)
  show ?case
  proof (cases "nstart n = None \<or> nend n = None \<or> the (nend n) \<le> max (the (nstart n)) (scanOffset st)")
    case True
    then show ?thesis using visitNode_skip [OF True] by simp
  next
    case False
    then obtain so eo where r: "nstart n = Some so" "nend n = Some eo" "max so (scanOffset st) < eo"
      by (cases "nstart n"; cases "nend n") (auto simp: not_le simp del: max_less_iff_conj)
    obtain st1 where a: "addText (js_slice S (scanOffset st) (max so (scanOffset st))) True st = Some st1"
      using addText_Some by blast
    have m1: "map node (stack st1) = map node (stack st)" using addText_fields(1) [OF a] .
    have "\<exists>st3. visitBody S n eo (pushFrame n st1) = Some st3
       \<and> map node (stack st3) = map node (stack (pushFrame n st1))"
    proof (cases n)
      case (Literal ty d s e)
      obtain st3 where b: "addText (js_slice S (scanOffset (pushFrame n st1)) eo) False (pushFrame n st1) = Some st3"
        using addText_Some by blast
      then show ?thesis using addText_fields(1) [OF b] Literal by (simp add: visitBody_def)
    next
      case (Parent ty d s e cs)
      have m: "(if so < scanOffset st then scanOffset st else so) = max so (scanOffset st)"
        by (simp add: max_def)
      have ne: "\<not> eo \<le> (if so < scanOffset st then scanOffset st else so)"
        unfolding m using r(3) by (simp add: not_le del: max_less_iff_conj)
      have "addText (js_slice S (scanOffset st) (if so < scanOffset st then scanOffset st else so)) True st \<bind>
           (\<lambda>st1. Some (st1\<lparr>stack := stack st1 @
              [\<lparr>node = n, el = createElement (if stack st1 \<noteq> [] then ''span'' else ''div''),
                first = True\<rparr>]\<rparr>)) = Some (pushFrame n st1)"
        unfolding m using a by (simp add: pushFrame_def)
      from 3 [OF r(1) r(2) refl ne this Parent]
      show ?thesis using Parent by (simp add: visitBody_def)
    qed
    then obtain st3 where b: "visitBody S n eo (pushFrame n st1) = Some st3"
      and m3: "map node (stack st3) = map node (stack st1) @ [n]"
      by (auto simp: pushFrame_def)
    have "stack st3 \<noteq> []" using m3 by auto
    then obtain st4 where c: "closeFrame i st3 = Some st4"
      using closeFrame_Some by blast
    have "map node (stack st4) = map node (stack st)"
      using closeFrame_fields(1) [OF c] m3 m1 by simp
    then show ?thesis using visitNode_visit [OF r] a b c by simp
  qed
qed

lemma text_of_kids: "text_of e = concat (map text_of_child (kids e))"
  by (cases e) simp

lemma text_of_ops [simp]:
  "text_of (createElement t) = []"
  "text_of (classList_add c e) = text_of e"
  "text_of (append_child ch e) = text_of e @ text_of_child ch"
  "text_of (addStyle n a b e) = text_of e"
  "text_of (setAttribute k v e) = text_of e"
  by (simp_all add: text_of_kids)

lemma text_of_createDelimiter [simp]: "text_of (createDelimiter l) = l"
  by (simp add: createDelimiter_def)

lemma text_of_createLine [simp]: "text_of (createLine l) = l @ [ZWSP]"
  by (simp add: createLine_def)

lemma concat_merge:
  "0 < i \<Longrightarrow> i < length T \<Longrightarrow> concat (T[i - 1 := T ! (i - 1) @ T ! i, i := []]) = concat T"
proof (induction T arbitrary: i)
  case Nil
  then show ?case by simp
next
  case (Cons x T)
  show ?case
  proof (cases i)
    case 0
    then show ?thesis using Cons.prems by simp
  next
    case (Suc j)
    show ?thesis
    proof (cases j)
      case 0
      then show ?thesis using Suc Cons.prems by (cases T) simp_all
    next
      case (Suc k)
      then show ?thesis using \<open>i = Suc j\<close> Cons.prems Cons.IH [of j] by simp
    qed
  qed
qed

lemma frame_text_styled:
  "map frame_text (styled index l stk) = map frame_text stk"
  by (rule nth_equalityI) (simp_all add: styled_def nth_map_el frame_text_def)

lemma frame_text_styled_nth:
  "j < length stk \<Longrightarrow> frame_text (styled index l stk ! j) = frame_text (stk ! j)"
  using frame_text_styled [of index l stk] by (metis length_styled nth_map)

lemma pushElement_inner_texts:
  assumes "0 < i" "pushElement i l st = Some st'"
  shows "map frame_text (stack st') =
     (map frame_text (stack st))[i - 1 := frame_text (stack st ! (i - 1)) @ frame_text (stack st ! i),
        i := []]"
proof -
  have lt: "i < length (stack st)" using pushElement_fields(6) [OF assms(2)] .
  have e: "stack st' = (map_el (i - 1) (append_child (ElemNode (el (styled i l (stack st) ! i))))
          (styled i l (stack st)))
       [i := (styled i l (stack st) ! i)\<lparr>el := createElement ''span'', first := False\<rparr>]"
    using assms lt by (auto simp: pushElement_inner)
  show ?thesis
    unfolding e using lt assms(1) frame_text_styled_nth [of _ "stack st" i l]
    by (intro nth_equalityI) (auto simp: nth_list_update nth_map_el frame_text_def)
qed

lemma pushElement_inner_stack_text:
  assumes "0 < i" "pushElement i l st = Some st'"
  shows "stack_text (stack st') = stack_text (stack st)"
proof -
  have lt: "i < length (stack st)" using pushElement_fields(6) [OF assms(2)] .
  show ?thesis
    unfolding stack_text_def pushElement_inner_texts [OF assms]
    using concat_merge [of i "map frame_text (stack st)"] assms(1) lt by simp
qed

lemma flushFrames_texts:
  assumes "flushFrames j st = Some st'" "j < length (stack st)"
  shows "map frame_text (stack st') =
     concat (take (Suc j) (map frame_text (stack st))) # replicate j []
       @ drop (Suc j) (map frame_text (stack st))"
  using assms
proof (induction j arbitrary: st)
  case 0
  then show ?case by (cases "stack st") simp_all
next
  case (Suc j)
  from Suc.prems obtain st1 where p: "pushElement (Suc j) False st = Some st1"
    and f: "flushFrames j st1 = Some st'"
    by (auto simp: bind_eq_Some_conv)
  define T where "T = map frame_text (stack st)"
  have lT: "Suc j < length T" using Suc.prems by (simp add: T_def)
  have T1: "map frame_text (stack st1) = T[j := T ! j @ T ! Suc j, Suc j := []]"
    using pushElement_inner_texts [OF _ p] Suc.prems by (simp add: T_def)
  have l1: "j < length (stack st1)"
    using pushElement_fields(4) [OF p] Suc.prems by simp
  have tk: "take (Suc j) (T[j := T ! j @ T ! Suc j, Suc j := []]) = take j T @ [T ! j @ T ! Suc j]"
    using lT by (simp add: take_Suc_conv_app_nth)
  have dr: "drop (Suc j) (T[j := T ! j @ T ! Suc j, Suc j := []]) = [] # drop (Suc (Suc j)) T"
    using lT by (simp add: drop_update_swap Cons_nth_drop_Suc [symmetric] flip: upd_conv_take_nth_drop)
  have ct: "concat (take j T @ [T ! j @ T ! Suc j]) = concat (take (Suc (Suc j)) T)"
    using lT by (simp add: take_Suc_conv_app_nth)
  show ?case
    using Suc.IH [OF f l1]
    unfolding T1 T_def [symmetric] tk dr ct
    by (simp add: replicate_append_same)
qed

lemma flushFrames_all_texts:
  assumes "flushFrames (length (stack st) - 1) st = Some st'" "stack st \<noteq> []"
  shows "map frame_text (stack st') =
     stack_text (stack st) # replicate (length (stack st) - 1) []"
proof -
  have "length (stack st) - 1 < length (stack st)" using assms(2) by (cases "stack st") simp_all
  from flushFrames_texts [OF assms(1) this] assms(2)
  show ?thesis by (simp add: stack_text_def)
qed

lemma breakLine_text:
  assumes "breakLine st = Some st'" "stack st \<noteq> []"
  shows "\<exists>e. kids (block st') = kids (block st) @ [ElemNode e]
          \<and> text_of e = stack_text (stack st) @ [ZWSP]"
    and "stack_text (stack st') = []"
proof -
  from assms obtain st1 st2 where f: "flushFrames (length (stack st) - 1) st = Some st1"
    and a: "appendToFrame 0 (TextNode [ZWSP]) st1 = Some st2"
    and p: "pushElement 0 False st2 = Some st'"
    by (auto simp: breakLine_def bind_eq_Some_conv)
  have T1: "map frame_text (stack st1) = stack_text (stack st) # replicate (length (stack st) - 1) []"
    using flushFrames_all_texts [OF f assms(2)] .
  have b1: "block st1 = block st" using flushFrames_fields [OF f] by simp
  have n1: "stack st1 \<noteq> []" using T1 by auto
  have e2: "st2 = st1\<lparr>stack := map_el 0 (append_child (TextNode [ZWSP])) (stack st1)\<rparr>"
    using a by (auto simp: appendToFrame_def split: if_splits)
  have n2: "0 < length (stack st2)" using e2 n1 by simp
  have T2: "map frame_text (stack st2) =
      (stack_text (stack st) @ [ZWSP]) # replicate (length (stack st) - 1) []"
    using T1 n1 unfolding e2
    by (cases "stack st1") (auto simp: map_el_def frame_text_def)
  have e': "st' = st2\<lparr>stack := (styled 0 False (stack st2))
                [0 := (styled 0 False (stack st2) ! 0)\<lparr>el := createElement ''div'', first := False\<rparr>],
              block := append_child (ElemNode (el (styled 0 False (stack st2) ! 0))) (block st2)\<rparr>"
    using p n2 by (simp add: pushElement_outer)
  have ft0: "frame_text (styled 0 False (stack st2) ! 0) = stack_text (stack st) @ [ZWSP]"
    using frame_text_styled_nth [OF n2, of 0 False] T2 n2
    by (metis nth_Cons_0 nth_map)
  show "\<exists>e. kids (block st') = kids (block st) @ [ElemNode e]
          \<and> text_of e = stack_text (stack st) @ [ZWSP]"
    using ft0 b1 unfolding e' e2 by (simp add: frame_text_def)
  have "map frame_text (stack st') = (map frame_text (styled 0 False (stack st2)))[0 := []]"
    unfolding e' by (simp add: map_update frame_text_def)
  then have "map frame_text (stack st') = replicate (length (stack st)) []"
    unfolding frame_text_styled T2 using assms(2)
    by (cases "stack st") simp_all
  then show "stack_text (stack st') = []"
    by (simp add: stack_text_def)
qed

lemma concat_update_last:
  "T \<noteq> [] \<Longrightarrow> concat (T[length T - 1 := T ! (length T - 1) @ l]) = concat T @ l"
  by (induction T rule: rev_induct) (simp_all add: nth_append)

lemma appendToFrame_top_text:
  assumes "appendToFrame (length (stack st) - 1) c st = Some st'"
  shows "stack_text (stack st') = stack_text (stack st) @ text_of_child c"
proof -
  have n: "stack st \<noteq> []" using assms by (auto simp: appendToFrame_def split: if_splits)
  have e: "stack st' = map_el (length (stack st) - 1) (append_child c) (stack st)"
    using assms by (auto simp: appendToFrame_def split: if_splits)
  have "map frame_text (stack st') = (map frame_text (stack st))
     [length (stack st) - 1 := frame_text (stack st ! (length (stack st) - 1)) @ text_of_child c]"
    unfolding e by (simp add: map_el_def map_update frame_text_def)
  then show ?thesis
    using concat_update_last [of "map frame_text (stack st)" "text_of_child c"] n
    by (simp add: stack_text_def)
qed

lemma appendLine_text:
  assumes "appendLine l d st = Some st'"
  shows "stack_text (stack st') = stack_text (stack st) @ l"
  using assms appendToFrame_top_text
  by (cases "l = []"; cases d) (auto simp: appendLine_def)

lemma breakLine_emitted:
  assumes "breakLine st = Some st'" "stack st \<noteq> []"
  shows "emitted st' = emitted st @ [NL]"
proof -
  from breakLine_text(1) [OF assms] obtain e where
    k: "kids (block st') = kids (block st) @ [ElemNode e]"
    and t: "text_of e = stack_text (stack st) @ [ZWSP]" by blast
  have r: "rootEl st' = rootEl st" using breakLine_fields(2) [OF assms(1)] .
  show ?thesis
    using breakLine_text(2) [OF assms] k t r
    by (simp add: emitted_def done_text_def line_text_def)
qed

lemma appendLine_emitted:
  assumes "appendLine l d st = Some st'"
  shows "emitted st' = emitted st @ l"
  using appendLine_text [OF assms] appendLine_fields [OF assms]
  by (simp add: emitted_def done_text_def)

lemma addLines_emitted:
  assumes "addLines ls d st = Some st'" "stack st \<noteq> []"
  shows "emitted st' = emitted st @ concat (map (\<lambda>l. NL # l) ls)"
  using assms
proof (induction ls arbitrary: st)
  case Nil
  then show ?case by simp
next
  case (Cons l ls)
  from Cons.prems obtain st1 st2 where b: "breakLine st = Some st1"
    and a: "appendLine l d st1 = Some st2" and r: "addLines ls d st2 = Some st'"
    by (auto simp: bind_eq_Some_conv)
  have n1: "stack st1 \<noteq> []"
    using breakLine_fields(3) [OF b] Cons.prems(2) stack_nonempty_cong by blast
  have n2: "stack st2 \<noteq> []"
    using appendLine_fields(4) [OF a] n1 stack_nonempty_cong by blast
  show ?case
    using Cons.IH [OF r n2] breakLine_emitted [OF b Cons.prems(2)] appendLine_emitted [OF a]
    by simp
qed

lemma split_nl_nonempty [simp]: "split_nl t \<noteq> []"
  by (induction t) simp_all

lemma split_nl_join:
  "hd (split_nl t) @ concat (map (\<lambda>l. NL # l) (tl (split_nl t))) = t"
proof (induction t)
  case Nil
  then show ?case by simp
next
  case (Cons c t)
  then show ?case by (cases "split_nl t") simp_all
qed

lemma split_nl_lines:
  "concat (map (\<lambda>l. l @ [NL]) (butlast (split_nl t))) @ last (split_nl t) = t"
proof (induction t)
  case Nil
  then show ?case by simp
next
  case (Cons c t)
  then show ?case
    by (cases "split_nl t") (auto split: if_splits)
qed

lemma emitted_scanOffset_update [simp]:
  "emitted (st\<lparr>scanOffset := k\<rparr>) = emitted st"
  by (simp add: emitted_def done_text_def)

lemma addText_nonempty_emitted:
  assumes "addText text d st = Some st'" "stack st \<noteq> []"
  shows "emitted st' = emitted st @ text"
proof -
  from assms obtain st1 st2 where a: "appendLine (hd (split_nl text)) d st = Some st1"
    and r: "addLines (tl (split_nl text)) d st1 = Some st2"
    and e: "st' = st2\<lparr>scanOffset := scanOffset st2 + length text\<rparr>"
    by (auto simp: addText_def Let_def bind_eq_Some_conv)
  have n1: "stack st1 \<noteq> []"
    using appendLine_fields(4) [OF a] assms(2) stack_nonempty_cong by blast
  show ?thesis
    using addLines_emitted [OF r n1] appendLine_emitted [OF a] split_nl_join [of "text"]
    unfolding e by simp
qed

lemma addBlockLines_emitted:
  "stack st = [] \<Longrightarrow>
   emitted (addBlockLines ls st) = emitted st @ concat (map (\<lambda>l. l @ [NL]) ls)
   \<and> scanOffset (addBlockLines ls st) = scanOffset st + length (concat (map (\<lambda>l. l @ [NL]) ls))"
proof (induction ls arbitrary: st)
  case Nil
  then show ?case by simp
next
  case (Cons l ls)
  let ?st1 = "(pushBlock (st\<lparr>block := append_child (ElemNode (createLine l)) (block st)\<rparr>))
          \<lparr>scanOffset := scanOffset st + (length l + 1)\<rparr>"
  have s1: "stack ?st1 = []" using Cons.prems by (simp add: pushBlock_def)
  have e1: "emitted ?st1 = emitted st @ l @ [NL]"
    using Cons.prems
    by (simp add: emitted_def done_text_def pushBlock_def all_lines_def child_kids_def
        line_text_def stack_text_def)
  show ?case
    using Cons.IH [OF s1] e1 by simp
qed

lemma addText_empty_emitted:
  assumes "addText text d st = Some st'" "stack st = []"
  shows "\<exists>k \<le> length text. emitted st' = emitted st @ take k text
          \<and> scanOffset st' = scanOffset st + k"
proof -
  define p where "p = concat (map (\<lambda>l. l @ [NL]) (butlast (split_nl text)))"
  have t: "text = p @ last (split_nl text)"
    using split_nl_lines [of "text"] by (simp add: p_def)
  have e: "st' = addBlockLines (butlast (split_nl text)) st"
    using assms by (simp add: addText_def)
  have "emitted st' = emitted st @ p \<and> scanOffset st' = scanOffset st + length p"
    unfolding e p_def using addBlockLines_emitted [OF assms(2)] by blast
  moreover have "take (length p) text = p" "length p \<le> length text"
    using t by (metis append_eq_conv_conj, metis le_add1 length_append)
  ultimately show ?thesis by metis
qed

lemma pushFrame_emitted [simp]: "emitted (pushFrame n st) = emitted st"
  by (simp add: pushFrame_def emitted_def done_text_def stack_text_def frame_text_def)

lemma closeFrame_inner_emitted:
  assumes "closeFrame i st = Some st'" "length (stack st) > 1"
  shows "emitted st' = emitted st"
proof -
  from assms obtain st1 where p: "pushElement (length (stack st) - 1) True st = Some st1"
    and e: "st' = st1\<lparr>stack := butlast (stack st1)\<rparr>"
    by (auto simp: closeFrame_def bind_eq_Some_conv)
  have pos: "0 < length (stack st) - 1" using assms(2) by simp
  have T1: "map frame_text (stack st1) = (map frame_text (stack st))
     [length (stack st) - 1 - 1 := frame_text (stack st ! (length (stack st) - 1 - 1))
         @ frame_text (stack st ! (length (stack st) - 1)),
      length (stack st) - 1 := []]"
    using pushElement_inner_texts [OF pos p] .
  have l1: "length (stack st1) = length (stack st)" using pushElement_fields(4) [OF p] .
  then have n1: "stack st1 \<noteq> []" using assms(2) by auto
  obtain ys y where s1: "stack st1 = ys @ [y]" using n1 by (metis rev_exhaust)
  have ly: "length ys = length (stack st) - 1" using l1 s1 by simp
  have "map frame_text (stack st1) ! (length (stack st) - 1) = []"
    unfolding T1 using assms(2) by simp
  then have lt: "frame_text y = []" unfolding s1 ly [symmetric]
    by (simp add: nth_append)
  have "stack_text (butlast (stack st1)) = stack_text (stack st1)"
    unfolding s1 using lt by (simp add: stack_text_def)
  then have "stack_text (butlast (stack st1)) = stack_text (stack st)"
    using pushElement_inner_stack_text [OF pos p] by simp
  then show ?thesis
    unfolding e using pushElement_fields(2,5) [OF p] pos
    by (simp add: emitted_def done_text_def)
qed

lemma closeFrame_outer_emitted:
  assumes "closeFrame i st = Some st'" "length (stack st) = 1"
  shows "emitted st' = emitted st @ [NL]"
proof -
  from assms obtain f where s: "stack st = [f]" by (cases "stack st") auto
  have a: "appendToFrame 0 (TextNode [ZWSP]) st
      = Some (st\<lparr>stack := [f\<lparr>el := append_child (TextNode [ZWSP]) (el f)\<rparr>]\<rparr>)"
    by (simp add: appendToFrame_def s map_el_def)
  let ?st1 = "st\<lparr>stack := [f\<lparr>el := append_child (TextNode [ZWSP]) (el f)\<rparr>]\<rparr>"
  obtain st2 where p: "pushElement 0 True ?st1 = Some st2"
    using pushElement_Some [of 0 ?st1 True] by auto
  have k: "kids (block st2) = kids (block st) @ [ElemNode (el (styled 0 True (stack ?st1) ! 0))]"
    and r2: "rootEl st2 = rootEl st" and l2: "length (stack st2) = 1"
    using p by (auto simp: pushElement_outer)
  have ft: "text_of (el (styled 0 True (stack ?st1) ! 0)) = frame_text f @ [ZWSP]"
    using frame_text_styled_nth [of 0 "stack ?st1" 0 True]
    by (simp add: frame_text_def)
  have e: "st' = (pushBlock (st2\<lparr>block := setAttribute ''index'' (show_nat i) (block st2)\<rparr>))
                \<lparr>scanOffset := scanOffset st2 + 1, stack := butlast (stack st2)\<rparr>"
    using assms a p by (simp add: closeFrame_def pushBlock_def)
  have b: "butlast (stack st2) = []" using l2 by (cases "stack st2") auto
  show ?thesis
    unfolding e using k r2 ft b s
    by (simp add: emitted_def done_text_def pushBlock_def all_lines_def child_kids_def
        line_text_def stack_text_def)
qed

lemma length_js_slice: "length (js_slice S a x) = min (x - a) (length S - a)"
  by (simp add: js_slice_def)

lemma take_slice:
  assumes "k \<le> length (js_slice S a x)"
  shows "take a (S @ [NL]) @ take k (js_slice S a x) = take (a + k) (S @ [NL])"
proof (cases "a \<le> length S")
  case True
  have k0: "k \<le> min (x - a) (length S - a)" using assms by (simp add: length_js_slice)
  have k: "k \<le> x - a" "a + k \<le> length S" using k0 True by arith+
  have "take k (js_slice S a x) = take k (drop a S)"
    using k by (simp add: js_slice_def min_def)
  then show ?thesis using True k by (simp add: take_add)
next
  case False
  then show ?thesis using assms by (simp add: length_js_slice)
qed

lemma fidelity_addText:
  assumes "fidelity S st" "addText (js_slice S (scanOffset st) x) d st = Some st'"
  shows "fidelity S st'"
proof (cases "stack st = []")
  case True
  from addText_empty_emitted [OF assms(2) True] obtain k where
    "k \<le> length (js_slice S (scanOffset st) x)"
    "emitted st' = emitted st @ take k (js_slice S (scanOffset st) x)"
    "scanOffset st' = scanOffset st + k" by blast
  then show ?thesis using assms(1) take_slice by (simp add: fidelity_def)
next
  case False
  have "emitted st' = emitted st @ take (length (js_slice S (scanOffset st) x)) (js_slice S (scanOffset st) x)"
    using addText_nonempty_emitted [OF assms(2) False] by simp
  then show ?thesis
    using assms(1) addText_fields(3) [OF assms(2) False] take_slice [OF order_refl]
    by (simp add: fidelity_def)
qed

lemma fidelity_pushFrame [simp]: "fidelity S (pushFrame n st) = fidelity S st"
  by (simp add: fidelity_def pushFrame_def emitted_def done_text_def stack_text_def frame_text_def)

lemma stack_pushFrame [simp]: "stack (pushFrame n st) = stack st @ [\<lparr>node = n,
     el = createElement (if stack st \<noteq> [] then ''span'' else ''div''), first = True\<rparr>]"
  "scanOffset (pushFrame n st) = scanOffset st" "rootEl (pushFrame n st) = rootEl st"
  "block (pushFrame n st) = block st"
  by (simp_all add: pushFrame_def)

lemma visit_cases:
  obtains (skip) "visitNode S n i st = Some st"
      "nstart n = None \<or> nend n = None \<or> the (nend n) \<le> max (the (nstart n)) (scanOffset st)"
  | (visit) so eo st1 st3 st' where "nstart n = Some so" "nend n = Some eo"
      "max so (scanOffset st) < eo"
      "addText (js_slice S (scanOffset st) (max so (scanOffset st))) True st = Some st1"
      "visitBody S n eo (pushFrame n st1) = Some st3"
      "closeFrame i st3 = Some st'"
      "visitNode S n i st = Some st'"
      "map node (stack st1) = map node (stack st)"
      "map node (stack st3) = map node (stack st) @ [n]"
proof (cases "nstart n = None \<or> nend n = None \<or> the (nend n) \<le> max (the (nstart n)) (scanOffset st)")
  case True
  then show ?thesis using visitNode_skip [OF True] skip by blast
next
  case False
  then obtain so eo where r: "nstart n = Some so" "nend n = Some eo" "max so (scanOffset st) < eo"
    by (cases "nstart n"; cases "nend n") (auto simp: not_le simp del: max_less_iff_conj)
  obtain st' where v: "visitNode S n i st = Some st'" using visit_total_aux(2) by blast
  then obtain st1 st3 where a: "addText (js_slice S (scanOffset st) (max so (scanOffset st))) True st = Some st1"
    and b: "visitBody S n eo (pushFrame n st1) = Some st3"
    and c: "closeFrame i st3 = Some st'"
    unfolding visitNode_visit [OF r] by (auto simp: bind_eq_Some_conv)
  have m1: "map node (stack st1) = map node (stack st)" using addText_fields(1) [OF a] .
  have "map node (stack st3) = map node (stack (pushFrame n st1))"
  proof (cases n)
    case (Literal ty d s e)
    then show ?thesis using b addText_fields(1) by (simp add: visitBody_def)
  next
    case (Parent ty d s e cs)
    then show ?thesis using b visit_total_aux(1) [of S cs 0 eo "pushFrame n st1"]
      by (auto simp: visitBody_def)
  qed
  then have m3: "map node (stack st3) = map node (stack st) @ [n]" using m1 by simp
  show ?thesis using visit [OF r a b c v m1 m3] .
qed

lemma max_clamp: "max so c = (if so < c then c else so)" for so c :: nat
  by (simp add: max_def)

lemma bind_push:
  "addText t True st = Some st1 \<Longrightarrow>
   addText t True st \<bind> (\<lambda>st1. Some (st1\<lparr>stack := stack st1 @
      [\<lparr>node = n, el = createElement (if stack st1 \<noteq> [] then ''span'' else ''div''),
        first = True\<rparr>]\<rparr>)) = Some (pushFrame n st1)"
  by (simp add: pushFrame_def)

lemma not_le_clamp:
  "max so c < eo \<Longrightarrow> \<not> eo \<le> (if so < c then c else so)" for so c eo :: nat
  by (auto split: if_splits)

text \<open>An invariant of every operation is an invariant of the traversal.\<close>

lemma traversal_invariant_aux:
  assumes A: "\<And>st x d st'. I st \<Longrightarrow> addText (js_slice S (scanOffset st) x) d st = Some st' \<Longrightarrow> I st'"
    and P: "\<And>st n. I st \<Longrightarrow> I (pushFrame n st)"
    and C: "\<And>st i st'. I st \<Longrightarrow> stack st \<noteq> [] \<Longrightarrow> closeFrame i st = Some st' \<Longrightarrow> I st'"
  shows "S' = S \<Longrightarrow> I st \<Longrightarrow> getChildren_from S' ns i pe st = Some st' \<Longrightarrow> I st'"
    and "S' = S \<Longrightarrow> I st \<Longrightarrow> visitNode S' n i st = Some st' \<Longrightarrow> I st'"
proof (induction S' ns i pe st and S' n i st arbitrary: st' and st'
    rule: getChildren_from_visitNode.induct)
  case (1 S' i parentEndOffset st)
  then show ?case using A by simp
next
  case (2 S' n ns i parentEndOffset st)
  from 2(5) obtain st1 where v: "visitNode S' n i st = Some st1"
    and r: "getChildren_from S' ns (Suc i) parentEndOffset st1 = Some st'"
    by (auto simp: bind_eq_Some_conv)
  show ?case using 2(2) [OF v 2(3) _ r] 2(1) [OF 2(3) 2(4) v] by blast
next
  case (3 S' n i st)
  note eq = \<open>S' = S\<close>
  show ?case
  proof (cases rule: visit_cases [of S n i st])
    case skip
    then show ?thesis using 3 by simp
  next
    case (visit so eo st1 st3 st'')
    have e: "st'' = st'" using visit(7) 3(4) eq by simp
    have I1: "I st1" using A [OF 3(3) visit(4)] .
    have I2: "I (pushFrame n st1)" using P [OF I1] .
    have I3: "I st3"
    proof (cases n)
      case (Literal ty d s e)
      then show ?thesis using visit(5) A [OF I2] by (simp add: visitBody_def)
    next
      case (Parent ty d s e cs)
      have b: "getChildren_from S cs 0 eo (pushFrame n st1) = Some st3"
        using visit(5) Parent by (simp add: visitBody_def)
      show ?thesis
        using 3(1) [unfolded eq, OF visit(1) visit(2) refl not_le_clamp [OF visit(3)]
            bind_push [OF visit(4) [unfolded max_clamp]] Parent refl I2 b] .
    qed
    have "stack st3 \<noteq> []" using visit(9) by auto
    then show ?thesis using C [OF I3 _ visit(6)] e by simp
  qed
qed

lemmas traversal_invariant = traversal_invariant_aux [OF _ _ _ refl]

text \<open>The same inside a node: the stack is not empty, and no block is closed.\<close>

lemma nested_invariant_aux:
  assumes A: "\<And>st x d st'. I st \<Longrightarrow> stack st \<noteq> [] \<Longrightarrow>
        addText (js_slice S (scanOffset st) x) d st = Some st' \<Longrightarrow> I st'"
    and P: "\<And>st n. I st \<Longrightarrow> stack st \<noteq> [] \<Longrightarrow> I (pushFrame n st)"
    and C: "\<And>st i st'. I st \<Longrightarrow> length (stack st) > 1 \<Longrightarrow> closeFrame i st = Some st' \<Longrightarrow> I st'"
  shows "S' = S \<Longrightarrow> I st \<Longrightarrow> stack st \<noteq> [] \<Longrightarrow> getChildren_from S' ns i pe st = Some st' \<Longrightarrow> I st'"
    and "S' = S \<Longrightarrow> I st \<Longrightarrow> stack st \<noteq> [] \<Longrightarrow> visitNode S' n i st = Some st' \<Longrightarrow> I st'"
proof (induction S' ns i pe st and S' n i st arbitrary: st' and st'
    rule: getChildren_from_visitNode.induct)
  case (1 S' i parentEndOffset st)
  then show ?case using A by simp
next
  case (2 S' n ns i parentEndOffset st)
  from 2(6) obtain st1 where v: "visitNode S' n i st = Some st1"
    and r: "getChildren_from S' ns (Suc i) parentEndOffset st1 = Some st'"
    by (auto simp: bind_eq_Some_conv)
  have "stack st1 \<noteq> []"
    using visit_total_aux(2) [of S' n i st] v 2(5) stack_nonempty_cong by auto
  then show ?case using 2(2) [OF v 2(3) _ _ r] 2(1) [OF 2(3) 2(4) 2(5) v] by blast
next
  case (3 S' n i st)
  note eq = \<open>S' = S\<close>
  show ?case
  proof (cases rule: visit_cases [of S n i st])
    case skip
    then show ?thesis using 3 by simp
  next
    case (visit so eo st1 st3 st'')
    have e: "st'' = st'" using visit(7) 3(5) eq by simp
    have I1: "I st1" using A [OF 3(3) 3(4) visit(4)] .
    have n1: "stack st1 \<noteq> []" using visit(8) 3(4) stack_nonempty_cong by blast
    have I2: "I (pushFrame n st1)" using P [OF I1 n1] .
    have n2: "stack (pushFrame n st1) \<noteq> []" by simp
    have I3: "I st3"
    proof (cases n)
      case (Literal ty d s e)
      then show ?thesis using visit(5) A [OF I2 n2] by (simp add: visitBody_def)
    next
      case (Parent ty d s e cs)
      have b: "getChildren_from S cs 0 eo (pushFrame n st1) = Some st3"
        using visit(5) Parent by (simp add: visitBody_def)
      show ?thesis
        using 3(1) [unfolded eq, OF visit(1) visit(2) refl not_le_clamp [OF visit(3)]
            bind_push [OF visit(4) [unfolded max_clamp]] Parent refl I2 n2 b] .
    qed
    have "length (stack st3) = Suc (length (stack st))"
      using visit(9) by (metis length_map length_append_singleton)
    then have "length (stack st3) > 1" using 3(4) by (cases "stack st") simp_all
    then show ?thesis using C [OF I3 _ visit(6)] e by simp
  qed
qed

lemmas nested_invariant = nested_invariant_aux [OF _ _ _ refl]

lemma addText_nonempty_scanOffset:
  assumes "addText (js_slice S (scanOffset st) x) d st = Some st'" "stack st \<noteq> []"
    "scanOffset st \<le> x" "x \<le> length S"
  shows "scanOffset st' = x"
  using addText_fields(3) [OF assms(1,2)] assms(3,4) by (simp add: length_js_slice)

lemma nested_scanOffset:
  shows "stack st \<noteq> [] \<Longrightarrow> scanOffset st \<le> pe \<Longrightarrow> pe \<le> length S \<Longrightarrow>
     list_all (nested_in pe) ns \<Longrightarrow> getChildren_from S ns i pe st = Some st' \<Longrightarrow>
     scanOffset st' = pe"
    and "stack st \<noteq> [] \<Longrightarrow> scanOffset st \<le> b \<Longrightarrow> b \<le> length S \<Longrightarrow>
     nested_in b n \<Longrightarrow> visitNode S n i st = Some st' \<Longrightarrow>
     scanOffset st \<le> scanOffset st' \<and> scanOffset st' \<le> b"
proof (induction S ns i pe st and S n i st arbitrary: st' and st' b
    rule: getChildren_from_visitNode.induct)
  case (1 S i parentEndOffset st)
  from 1(5) have "addText (js_slice S (scanOffset st) parentEndOffset) True st = Some st'"
    by simp
  from addText_nonempty_scanOffset [OF this 1(1) 1(2) 1(3)] show ?case .
next
  case (2 S n ns i parentEndOffset st)
  from 2(7) obtain st1 where v: "visitNode S n i st = Some st1"
    and r: "getChildren_from S ns (Suc i) parentEndOffset st1 = Some st'"
    by (auto simp: bind_eq_Some_conv)
  have n1: "stack st1 \<noteq> []"
    using visit_total_aux(2) [of S n i st] v 2(3) stack_nonempty_cong by auto
  have "nested_in parentEndOffset n" "list_all (nested_in parentEndOffset) ns"
    using 2(6) by simp_all
  note nn = this
  have "scanOffset st1 \<le> parentEndOffset"
    using 2(1) [OF 2(3) 2(4) 2(5) nn(1) v] by blast
  from 2(2) [OF v n1 this 2(5) nn(2) r]
  show ?case .
next
  case (3 S n i st)
  show ?case
  proof (cases rule: visit_cases [of S n i st])
    case skip
    then show ?thesis using 3(3) 3(6) by simp
  next
    case (visit so eo st1 st3 st'')
    have e: "st'' = st'" using visit(7) 3(6) by simp
    have eb: "eo \<le> b" using 3(5) visit(1,2) by (cases n) simp_all
    have n1: "stack st1 \<noteq> []" using visit(8) 3(2) stack_nonempty_cong by blast
    have le: "max so (scanOffset st) \<le> length S" "scanOffset st \<le> max so (scanOffset st)"
      "max so (scanOffset st) \<le> eo" "eo \<le> length S"
      using visit(3) eb 3(4) by linarith+
    have s1: "scanOffset st1 = max so (scanOffset st)"
      using addText_nonempty_scanOffset [OF visit(4) 3(2) le(2) le(1)] .
    have n2: "stack (pushFrame n st1) \<noteq> []" by simp
    have s2: "scanOffset (pushFrame n st1) \<le> eo" using s1 le(3) by simp
    have s3: "scanOffset st3 = eo"
    proof (cases n)
      case (Literal ty d s e)
      then have "addText (js_slice S (scanOffset (pushFrame n st1)) eo) False (pushFrame n st1) = Some st3"
        using visit(5) by (simp add: visitBody_def)
      from addText_nonempty_scanOffset [OF this n2 s2 le(4)]
      show ?thesis .
    next
      case (Parent ty d s e cs)
      have b: "getChildren_from S cs 0 eo (pushFrame n st1) = Some st3"
        using visit(5) Parent by (simp add: visitBody_def)
      have nc: "list_all (nested_in eo) cs" using 3(5) visit(1,2) Parent by simp
      show ?thesis
        using 3(1) [OF visit(1) visit(2) refl not_le_clamp [OF visit(3)]
            bind_push [OF visit(4) [unfolded max_clamp]] Parent n2 s2 le(4) nc b] .
    qed
    have "length (stack st3) = Suc (length (stack st))"
      using visit(9) by (metis length_map length_append_singleton)
    then have "length (stack st3) > 1" using 3(2) by (cases "stack st") simp_all
    then have "scanOffset st' = eo"
      using closeFrame_fields(3) [OF visit(6)] s3 e by simp
    then show ?thesis using eb le by linarith
  qed
qed

lemma fidelity_nested:
  shows "fidelity S st \<Longrightarrow> stack st \<noteq> [] \<Longrightarrow> getChildren_from S ns i pe st = Some st' \<Longrightarrow>
     fidelity S st'"
    and "fidelity S st \<Longrightarrow> stack st \<noteq> [] \<Longrightarrow> visitNode S n i st = Some st' \<Longrightarrow>
     fidelity S st'"
proof -
  have A: "\<And>st x d st'. fidelity S st \<Longrightarrow> stack st \<noteq> [] \<Longrightarrow>
        addText (js_slice S (scanOffset st) x) d st = Some st' \<Longrightarrow> fidelity S st'"
    using fidelity_addText by blast
  have P: "\<And>st n. fidelity S st \<Longrightarrow> stack st \<noteq> [] \<Longrightarrow> fidelity S (pushFrame n st)"
    by simp
  have C: "\<And>st i st'. fidelity S st \<Longrightarrow> length (stack st) > 1 \<Longrightarrow>
        closeFrame i st = Some st' \<Longrightarrow> fidelity S st'"
  proof -
    fix st i st'
    assume f: "fidelity S st" and l: "length (stack st) > 1" and c: "closeFrame i st = Some st'"
    show "fidelity S st'"
      using closeFrame_inner_emitted [OF c l] closeFrame_fields(3) [OF c l] f
      by (simp add: fidelity_def)
  qed
  show "fidelity S st \<Longrightarrow> stack st \<noteq> [] \<Longrightarrow> getChildren_from S ns i pe st = Some st' \<Longrightarrow>
     fidelity S st'"
    by (rule nested_invariant(1) [where I="fidelity S", OF A P C])
  show "fidelity S st \<Longrightarrow> stack st \<noteq> [] \<Longrightarrow> visitNode S n i st = Some st' \<Longrightarrow>
     fidelity S st'"
    by (rule nested_invariant(2) [where I="fidelity S", OF A P C])
qed

lemma addBlockLines_block:
  "block st = createElement ''div'' \<Longrightarrow> block (addBlockLines ls st) = createElement ''div''"
  by (induction ls arbitrary: st) (simp_all add: pushBlock_def)

lemma closeFrame_outer_block:
  assumes "closeFrame i st = Some st'" "\<not> length (stack st) > 1"
  shows "block st' = createElement ''div''"
  using assms by (auto simp: closeFrame_def bind_eq_Some_conv pushBlock_def)

lemma block_fresh_traversal:
  shows "block_fresh st \<Longrightarrow> getChildren_from S ns i pe st = Some st' \<Longrightarrow> block_fresh st'"
    and "block_fresh st \<Longrightarrow> visitNode S n i st = Some st' \<Longrightarrow> block_fresh st'"
proof -
  have A: "\<And>st x d st'. block_fresh st \<Longrightarrow>
      addText (js_slice S (scanOffset st) x) d st = Some st' \<Longrightarrow> block_fresh st'"
  proof -
    fix st x d st'
    assume f: "block_fresh st" and a: "addText (js_slice S (scanOffset st) x) d st = Some st'"
    show "block_fresh st'"
    proof (cases "stack st = []")
      case True
      then show ?thesis using f a addBlockLines_block
        by (auto simp: addText_def block_fresh_def)
    next
      case False
      then have "stack st' \<noteq> []"
        using addText_fields(1) [OF a] stack_nonempty_cong by blast
      then show ?thesis by (simp add: block_fresh_def)
    qed
  qed
  have P: "\<And>st n. block_fresh st \<Longrightarrow> block_fresh (pushFrame n st)"
    by (simp add: block_fresh_def)
  have C: "\<And>st i st'. block_fresh st \<Longrightarrow> stack st \<noteq> [] \<Longrightarrow>
      closeFrame i st = Some st' \<Longrightarrow> block_fresh st'"
  proof -
    fix st i st'
    assume c: "closeFrame i st = Some st'" and n: "stack st \<noteq> []"
    show "block_fresh st'"
    proof (cases "length (stack st) > 1")
      case True
      have "length (map node (stack st')) = length (butlast (map node (stack st)))"
        using closeFrame_fields(1) [OF c] by simp
      then have "stack st' \<noteq> []" using True by auto
      then show ?thesis by (simp add: block_fresh_def)
    next
      case False
      then show ?thesis using closeFrame_outer_block [OF c] by (simp add: block_fresh_def)
    qed
  qed
  show "block_fresh st \<Longrightarrow> getChildren_from S ns i pe st = Some st' \<Longrightarrow> block_fresh st'"
    by (rule traversal_invariant(1) [where I=block_fresh, OF A P C])
  show "block_fresh st \<Longrightarrow> visitNode S n i st = Some st' \<Longrightarrow> block_fresh st'"
    by (rule traversal_invariant(2) [where I=block_fresh, OF A P C])
qed

lemma take_Suc_NL:
  assumes "e \<le> length S" "e = length S \<or> S ! e = NL"
  shows "take e (S @ [NL]) @ [NL] = take (Suc e) (S @ [NL])"
proof -
  have "(S @ [NL]) ! e = NL" using assms by (auto simp: nth_append)
  moreover have "e < length (S @ [NL])" using assms(1) by simp
  ultimately show ?thesis by (metis take_Suc_conv_app_nth)
qed

lemma fidelity_top_visit:
  assumes "fidelity S st" "stack st = []" "block_ends_line S n" "visitNode S n i st = Some st'"
  shows "fidelity S st'"
proof (cases rule: visit_cases [of S n i st])
  case skip
  then show ?thesis using assms(1,4) by simp
next
  case (visit so eo st1 st3 st'')
  have e: "st'' = st'" using visit(7) assms(4) by simp
  have be: "eo \<le> length S" "eo = length S \<or> S ! eo = NL" "nested_in eo n"
    using assms(3) visit(1,2) by (simp_all add: block_ends_line_def)
  have f1: "fidelity S st1" using fidelity_addText [OF assms(1) visit(4)] .
  have e1: "stack st1 = []" using visit(8) assms(2) by simp
  from addText_empty_emitted [OF visit(4) assms(2)] obtain k where
    k: "k \<le> length (js_slice S (scanOffset st) (max so (scanOffset st)))"
      "scanOffset st1 = scanOffset st + k" by blast
  have "k \<le> max so (scanOffset st) - scanOffset st"
    using k(1) by (simp add: length_js_slice)
  then have s1: "scanOffset st1 \<le> eo"
    using k(2) visit(3) by (auto simp: max_def split: if_splits)
  have n2: "stack (pushFrame n st1) \<noteq> []" by simp
  have f2: "fidelity S (pushFrame n st1)" using f1 by simp
  have s2: "scanOffset (pushFrame n st1) \<le> eo" using s1 by simp
  have f3: "fidelity S st3 \<and> scanOffset st3 = eo"
  proof (cases n)
    case (Literal ty d s e)
    then have a: "addText (js_slice S (scanOffset (pushFrame n st1)) eo) False (pushFrame n st1) = Some st3"
      using visit(5) by (simp add: visitBody_def)
    show ?thesis
      using fidelity_addText [OF f2 a] addText_nonempty_scanOffset [OF a n2 s2 be(1)] by simp
  next
    case (Parent ty d s e cs)
    have b: "getChildren_from S cs 0 eo (pushFrame n st1) = Some st3"
      using visit(5) Parent by (simp add: visitBody_def)
    have nc: "list_all (nested_in eo) cs" using be(3) visit(1,2) Parent by simp
    show ?thesis
      using fidelity_nested(1) [OF f2 n2 b] nested_scanOffset(1) [OF n2 s2 be(1) nc b] by simp
  qed
  have "length (map node (stack st3)) = 1"
    unfolding visit(9) using assms(2) by simp
  then have l3: "length (stack st3) = 1" by simp
  have "emitted st' = emitted st3 @ [NL]"
    using closeFrame_outer_emitted [OF visit(6) l3] e by simp
  moreover have "scanOffset st' = Suc eo"
    using closeFrame_fields(4) [OF visit(6)] l3 f3 e by simp
  ultimately show ?thesis
    using f3 take_Suc_NL [OF be(1,2)] by (simp add: fidelity_def)
qed

lemma fidelity_top:
  assumes "fidelity S st" "stack st = []" "list_all (block_ends_line S) ns"
    "getChildren_from S ns i pe st = Some st'"
  shows "fidelity S st'"
  using assms
proof (induction ns arbitrary: st i)
  case Nil
  then show ?case using fidelity_addText by simp
next
  case (Cons n ns)
  from Cons.prems(4) obtain st1 where v: "visitNode S n i st = Some st1"
    and r: "getChildren_from S ns (Suc i) pe st1 = Some st'"
    by (auto simp: bind_eq_Some_conv)
  have f1: "fidelity S st1"
    using fidelity_top_visit [OF Cons.prems(1,2) _ v] Cons.prems(3) by simp
  have e1: "stack st1 = []"
    using visit_total_aux(2) [of S n i st] v Cons.prems(2) by auto
  show ?case using Cons.IH [OF f1 e1 _ r] Cons.prems(3) by simp
qed

lemma join_lines_snoc:
  "join_lines (ls @ [l]) = concat (map (\<lambda>x. x @ [NL]) ls) @ l"
proof (induction ls)
  case Nil
  then show ?case by simp
next
  case (Cons a ls)
  then show ?case by (cases ls) simp_all
qed

lemma join_lines_terminated:
  assumes "concat (map (\<lambda>x. x @ [NL]) ls) = S @ [NL]"
  shows "join_lines ls = S"
proof (cases ls rule: rev_cases)
  case Nil
  then show ?thesis using assms by simp
next
  case (snoc bs l)
  then show ?thesis using assms by (simp add: join_lines_snoc)
qed

lemma fidelity_init: "fidelity S init_state"
  by (simp add: fidelity_def init_state_def emitted_def done_text_def stack_text_def
      all_lines_def)

lemma block_fresh_init: "block_fresh init_state"
  by (simp add: block_fresh_def init_state_def)

lemma finish_reconstruct:
  assumes "fidelity S st" "stack st = []" "block st = createElement ''div''"
  shows "reconstruct (rootEl (finish S st)) = S"
proof (cases "scanOffset st \<le> length S")
  case True
  have "all_lines (rootEl (finish S st)) =
      all_lines (rootEl st) @ [ElemNode (createLine (drop (scanOffset st) S))]"
    using True assms(3) by (simp add: finish_def pushBlock_def all_lines_def child_kids_def)
  moreover have "concat (map (\<lambda>x. x @ [NL]) (map line_text (all_lines (rootEl st))))
      = take (scanOffset st) S"
    using assms True by (simp add: fidelity_def emitted_def done_text_def stack_text_def
        comp_def)
  ultimately show ?thesis
    by (simp add: reconstruct_def join_lines_snoc line_text_def)
next
  case False
  have "concat (map (\<lambda>x. x @ [NL]) (map line_text (all_lines (rootEl st)))) = S @ [NL]"
    using assms False by (simp add: fidelity_def emitted_def done_text_def stack_text_def
        comp_def)
  from join_lines_terminated [OF this] False
  show ?thesis by (simp add: reconstruct_def finish_def)
qed

lemma scanOffset_mono:
  shows "getChildren_from S ns i pe st = Some st' \<Longrightarrow> scanOffset st \<le> scanOffset st'"
    and "visitNode S n i st = Some st' \<Longrightarrow> scanOffset st \<le> scanOffset st'"
proof -
  define I where "I = (\<lambda>s::state. scanOffset st \<le> scanOffset s)"
  have A: "\<And>s x d s'. I s \<Longrightarrow> addText (js_slice S (scanOffset s) x) d s = Some s' \<Longrightarrow> I s'"
    unfolding I_def by (erule order_trans) (rule addText_fields(2))
  have P: "\<And>s n. I s \<Longrightarrow> I (pushFrame n s)" by (simp add: I_def)
  have C: "\<And>s i s'. I s \<Longrightarrow> stack s \<noteq> [] \<Longrightarrow> closeFrame i s = Some s' \<Longrightarrow> I s'"
    unfolding I_def by (erule order_trans) (rule closeFrame_fields(2))
  have I0: "I st" by (simp add: I_def)
  have "getChildren_from S ns i pe st = Some st' \<Longrightarrow> I st'"
    by (rule traversal_invariant(1) [where I=I, OF A P C I0])
  then show "getChildren_from S ns i pe st = Some st' \<Longrightarrow> scanOffset st \<le> scanOffset st'"
    unfolding I_def .
  have "visitNode S n i st = Some st' \<Longrightarrow> I st'"
    by (rule traversal_invariant(2) [where I=I, OF A P C I0])
  then show "visitNode S n i st = Some st' \<Longrightarrow> scanOffset st \<le> scanOffset st'"
    unfolding I_def .
qed

lemma scanOffset_nested_bound:
  shows "scanOffset st \<le> length S \<Longrightarrow> stack st \<noteq> [] \<Longrightarrow>
      getChildren_from S ns i pe st = Some st' \<Longrightarrow> scanOffset st' \<le> length S"
    and "scanOffset st \<le> length S \<Longrightarrow> stack st \<noteq> [] \<Longrightarrow>
      visitNode S n i st = Some st' \<Longrightarrow> scanOffset st' \<le> length S"
proof -
  define I where "I = (\<lambda>s::state. scanOffset s \<le> length S)"
  have A: "\<And>s x d s'. I s \<Longrightarrow> stack s \<noteq> [] \<Longrightarrow>
      addText (js_slice S (scanOffset s) x) d s = Some s' \<Longrightarrow> I s'"
  proof -
    fix s x d s'
    assume i: "I s" and n: "stack s \<noteq> []"
      and a: "addText (js_slice S (scanOffset s) x) d s = Some s'"
    have "length (js_slice S (scanOffset s) x) \<le> length S - scanOffset s"
      by (simp add: length_js_slice)
    then show "I s'" using addText_fields(3) [OF a n] i
      unfolding I_def by linarith
  qed
  have P: "\<And>s n. I s \<Longrightarrow> stack s \<noteq> [] \<Longrightarrow> I (pushFrame n s)" by (simp add: I_def)
  have C: "\<And>s i s'. I s \<Longrightarrow> length (stack s) > 1 \<Longrightarrow> closeFrame i s = Some s' \<Longrightarrow> I s'"
  proof -
    fix s i s'
    assume i: "I s" and l: "length (stack s) > 1" and c: "closeFrame i s = Some s'"
    show "I s'" using closeFrame_fields(3) [OF c l] i by (simp add: I_def)
  qed
  have "I st \<Longrightarrow> stack st \<noteq> [] \<Longrightarrow> getChildren_from S ns i pe st = Some st' \<Longrightarrow> I st'"
    by (rule nested_invariant(1) [where I=I, OF A P C])
  then show "scanOffset st \<le> length S \<Longrightarrow> stack st \<noteq> [] \<Longrightarrow>
      getChildren_from S ns i pe st = Some st' \<Longrightarrow> scanOffset st' \<le> length S"
    unfolding I_def .
  have "I st \<Longrightarrow> stack st \<noteq> [] \<Longrightarrow> visitNode S n i st = Some st' \<Longrightarrow> I st'"
    by (rule nested_invariant(2) [where I=I, OF A P C])
  then show "scanOffset st \<le> length S \<Longrightarrow> stack st \<noteq> [] \<Longrightarrow>
      visitNode S n i st = Some st' \<Longrightarrow> scanOffset st' \<le> length S"
    unfolding I_def .
qed

lemma addText_empty_bound:
  assumes "addText (js_slice S (scanOffset st) x) d st = Some st'" "stack st = []"
  shows "scanOffset st' \<le> max (scanOffset st) (min x (length S))"
proof -
  from addText_empty_emitted [OF assms] obtain k where
    k: "k \<le> length (js_slice S (scanOffset st) x)" "scanOffset st' = scanOffset st + k" by blast
  then show ?thesis by (auto simp: length_js_slice)
qed

lemma scanOffset_top_visit_bound:
  assumes "scanOffset st \<le> Suc (length S)" "stack st = []"
    "case nend n of None \<Rightarrow> True | Some e \<Rightarrow> e \<le> length S"
    "visitNode S n i st = Some st'"
  shows "scanOffset st' \<le> Suc (length S)"
proof (cases rule: visit_cases [of S n i st])
  case skip
  then show ?thesis using assms(1,4) by simp
next
  case (visit so eo st1 st3 st'')
  have e: "st'' = st'" using visit(7) assms(4) by simp
  have el: "eo \<le> length S" using assms(3) visit(2) by simp
  have "scanOffset st1 \<le> max (scanOffset st) (min (max so (scanOffset st)) (length S))"
    using addText_empty_bound [OF visit(4) assms(2)] .
  then have s1: "scanOffset st1 \<le> length S" using visit(3) el by (auto simp: max_def split: if_splits)
  have n2: "stack (pushFrame n st1) \<noteq> []" by simp
  have s2: "scanOffset (pushFrame n st1) \<le> length S" using s1 by simp
  have s3: "scanOffset st3 \<le> length S"
  proof (cases n)
    case (Literal ty d s e)
    then have a: "addText (js_slice S (scanOffset (pushFrame n st1)) eo) False (pushFrame n st1) = Some st3"
      using visit(5) by (simp add: visitBody_def)
    show ?thesis using addText_fields(3) [OF a n2] s2 by (simp add: length_js_slice)
  next
    case (Parent ty d s e cs)
    then have b: "getChildren_from S cs 0 eo (pushFrame n st1) = Some st3"
      using visit(5) by (simp add: visitBody_def)
    show ?thesis using scanOffset_nested_bound(1) [OF s2 n2 b] .
  qed
  have "length (map node (stack st3)) = 1" unfolding visit(9) using assms(2) by simp
  then have "\<not> length (stack st3) > 1" by simp
  from closeFrame_fields(4) [OF visit(6) this] s3 e show ?thesis by simp
qed

lemma scanOffset_top_bound:
  assumes "scanOffset st \<le> Suc (length S)" "stack st = []" "ends_in S ns"
    "getChildren_from S ns i pe st = Some st'"
  shows "scanOffset st' \<le> Suc (length S)"
  using assms
proof (induction ns arbitrary: st i)
  case Nil
  then have a: "addText (js_slice S (scanOffset st) pe) True st = Some st'" by simp
  show ?case using addText_empty_bound [OF a Nil(2)] Nil(1) by (auto simp: max_def split: if_splits)
next
  case (Cons n ns)
  from Cons.prems(4) obtain st1 where v: "visitNode S n i st = Some st1"
    and r: "getChildren_from S ns (Suc i) pe st1 = Some st'"
    by (auto simp: bind_eq_Some_conv)
  have h: "case nend n of None \<Rightarrow> True | Some e \<Rightarrow> e \<le> length S" "ends_in S ns"
    using Cons.prems(3) by (simp_all add: ends_in_def)
  have s1: "scanOffset st1 \<le> Suc (length S)"
    using scanOffset_top_visit_bound [OF Cons.prems(1,2) h(1) v] .
  have e1: "stack st1 = []"
    using visit_total_aux(2) [of S n i st] v Cons.prems(2) by auto
  show ?case using Cons.IH [OF s1 e1 h(2) r] .
qed

lemma renderPass_total: "\<exists>st. renderPass S nodes = Some st \<and> stack st = []"
proof -
  obtain st where p: "getChildren_from S nodes 0 (length S) init_state = Some st"
    and m: "map node (stack st) = map node (stack init_state)"
    using visit_total_aux(1) by blast
  then show ?thesis by (simp add: renderPass_def getChildren_def init_state_def)
qed

lemma js_slice_same [simp]: "js_slice S a a = []"
  by (simp add: js_slice_def)

lemma addText_Nil [simp]: "addText [] d st = Some st"
  by (simp add: addText_def Let_def appendLine_def)

lemma editorRender_total: "\<exists>r. editorRender S nodes = Some r"
  using renderPass_total [of S nodes] by (auto simp: editorRender_def)

lemma visitNode_clamped:
  assumes "nstart n = Some so" "nend n = Some eo" "so < scanOffset st" "scanOffset st < eo"
  shows "visitNode S n i st = visitBody S n eo (pushFrame n st) \<bind> closeFrame i"
proof -
  have m: "max so (scanOffset st) = scanOffset st" using assms(3) by simp
  have "max so (scanOffset st) < eo" unfolding m using assms(4) .
  from visitNode_visit [OF assms(1,2) this] show ?thesis unfolding m by simp
qed

lemma append_kids_Nil [simp]: "append_kids [] r = r"
  by (cases r) (simp add: append_kids_def)

lemma append_kids_append [simp]: "append_kids b (append_kids a r) = append_kids (a @ b) r"
  by (simp add: append_kids_def)

lemma append_child_kids: "append_child c r = append_kids [c] r"
  by (simp add: append_kids_def append_child_def)

lemma kids_append_kids [simp]: "kids (append_kids new r) = kids r @ new"
  "tag (append_kids new r) = tag r"
  by (simp_all add: append_kids_def)

lemma blocks_ok_Nil [simp]: "blocks_ok [] []"
  by (simp add: blocks_ok_def)

lemma blocks_ok_append:
  "blocks_ok js a \<Longrightarrow> blocks_ok ks b \<Longrightarrow> blocks_ok (js @ ks) (a @ b)"
  by (simp add: blocks_ok_def)

lemma pushElement_block_head:
  assumes "pushElement index l st = Some st'"
  shows "head_fresh (block st') = head_fresh (block st)"
proof -
  have lt: "index < length (stack st)" using pushElement_fields(6) [OF assms] .
  show ?thesis
  proof (cases "index = 0")
    case True
    then show ?thesis using assms lt by (auto simp: pushElement_outer head_fresh_def)
  next
    case False
    then show ?thesis using pushElement_fields(5) [OF assms] by simp
  qed
qed

lemma breakLine_block_head:
  assumes "breakLine st = Some st'"
  shows "head_fresh (block st') = head_fresh (block st)"
proof -
  from assms obtain st1 st2 where f: "flushFrames (length (stack st) - 1) st = Some st1"
    and a: "appendToFrame 0 (TextNode [ZWSP]) st1 = Some st2"
    and p: "pushElement 0 False st2 = Some st'"
    by (auto simp: breakLine_def bind_eq_Some_conv)
  show ?thesis
    using flushFrames_fields [OF f] appendToFrame_fields(3) [OF a] pushElement_block_head [OF p]
    by simp
qed

lemma addLines_block_head:
  assumes "addLines ls d st = Some st'"
  shows "head_fresh (block st') = head_fresh (block st)"
  using assms
proof (induction ls arbitrary: st)
  case Nil
  then show ?case by simp
next
  case (Cons l ls)
  from Cons.prems obtain st1 st2 where b: "breakLine st = Some st1"
    and a: "appendLine l d st1 = Some st2" and r: "addLines ls d st2 = Some st'"
    by (auto simp: bind_eq_Some_conv)
  show ?case
    using Cons.IH [OF r] breakLine_block_head [OF b] appendLine_fields(3) [OF a] by simp
qed

lemma addText_nonempty_block_head:
  assumes "addText t d st = Some st'" "stack st \<noteq> []"
  shows "head_fresh (block st') = head_fresh (block st)"
proof -
  from assms obtain st1 st2 where a: "appendLine (hd (split_nl t)) d st = Some st1"
    and r: "addLines (tl (split_nl t)) d st1 = Some st2"
    and e: "st' = st2\<lparr>scanOffset := scanOffset st2 + length t\<rparr>"
    by (auto simp: addText_def Let_def bind_eq_Some_conv)
  show ?thesis
    using appendLine_fields(3) [OF a] addLines_block_head [OF r] e by simp
qed

lemma nested_root_block:
  shows "stack st \<noteq> [] \<Longrightarrow> getChildren_from S ns i pe st = Some st' \<Longrightarrow>
      rootEl st' = rootEl st \<and> head_fresh (block st') = head_fresh (block st)"
    and "stack st \<noteq> [] \<Longrightarrow> visitNode S n i st = Some st' \<Longrightarrow>
      rootEl st' = rootEl st \<and> head_fresh (block st') = head_fresh (block st)"
proof -
  define I where "I = (\<lambda>s::state. rootEl s = rootEl st \<and> head_fresh (block s) = head_fresh (block st))"
  have A: "\<And>s x d s'. I s \<Longrightarrow> stack s \<noteq> [] \<Longrightarrow>
      addText (js_slice S (scanOffset s) x) d s = Some s' \<Longrightarrow> I s'"
  proof -
    fix s x d s'
    assume i: "I s" and n: "stack s \<noteq> []"
      and a: "addText (js_slice S (scanOffset s) x) d s = Some s'"
    show "I s'"
      using addText_fields(4) [OF a n] addText_nonempty_block_head [OF a n] i
      unfolding I_def by simp
  qed
  have P: "\<And>s n. I s \<Longrightarrow> stack s \<noteq> [] \<Longrightarrow> I (pushFrame n s)" by (simp add: I_def)
  have C: "\<And>s i s'. I s \<Longrightarrow> length (stack s) > 1 \<Longrightarrow> closeFrame i s = Some s' \<Longrightarrow> I s'"
  proof -
    fix s i s'
    assume i: "I s" and l: "length (stack s) > 1" and c: "closeFrame i s = Some s'"
    from c l obtain s1 where p: "pushElement (length (stack s) - 1) True s = Some s1"
      and e: "s' = s1\<lparr>stack := butlast (stack s1)\<rparr>"
      by (auto simp: closeFrame_def bind_eq_Some_conv)
    show "I s'"
      using pushElement_fields(2) [OF p] pushElement_block_head [OF p] i e
      unfolding I_def by simp
  qed
  have I0: "I st" by (simp add: I_def)
  have "stack st \<noteq> [] \<Longrightarrow> getChildren_from S ns i pe st = Some st' \<Longrightarrow> I st'"
    by (rule nested_invariant(1) [where I=I, OF A P C I0])
  then show "stack st \<noteq> [] \<Longrightarrow> getChildren_from S ns i pe st = Some st' \<Longrightarrow>
      rootEl st' = rootEl st \<and> head_fresh (block st') = head_fresh (block st)"
    unfolding I_def .
  have "stack st \<noteq> [] \<Longrightarrow> visitNode S n i st = Some st' \<Longrightarrow> I st'"
    by (rule nested_invariant(2) [where I=I, OF A P C I0])
  then show "stack st \<noteq> [] \<Longrightarrow> visitNode S n i st = Some st' \<Longrightarrow>
      rootEl st' = rootEl st \<and> head_fresh (block st') = head_fresh (block st)"
    unfolding I_def .
qed

lemma is_block_line_block [simp]: "is_block (line_block l)" "block_attrs (line_block l) = []"
  by (simp_all add: is_block_def line_block_def block_attrs_def)

lemma addBlockLines_root:
  "block st = createElement ''div'' \<Longrightarrow>
   rootEl (addBlockLines ls st) = append_kids (map line_block ls) (rootEl st)
   \<and> block (addBlockLines ls st) = createElement ''div''"
proof (induction ls arbitrary: st)
  case Nil
  then show ?case by simp
next
  case (Cons l ls)
  let ?st1 = "(pushBlock (st\<lparr>block := append_child (ElemNode (createLine l)) (block st)\<rparr>))
          \<lparr>scanOffset := scanOffset st + (length l + 1)\<rparr>"
  have b1: "block ?st1 = createElement ''div''" by (simp add: pushBlock_def)
  have r1: "rootEl ?st1 = append_kids [line_block l] (rootEl st)"
    using Cons.prems
    by (simp add: pushBlock_def append_child_kids line_block_def classList_add_def
        createElement_def append_kids_def)
  show ?case using Cons.IH [OF b1] r1 by simp
qed

lemma blocks_ok_lines: "blocks_ok [] (map line_block ls)"
  by (induction ls) (simp_all add: blocks_ok_def)

lemma addText_empty_root:
  assumes "addText t d st = Some st'" "stack st = []" "block st = createElement ''div''"
  shows "\<exists>new. rootEl st' = append_kids new (rootEl st) \<and> blocks_ok [] new"
    and "block st' = createElement ''div''"
proof -
  have e: "st' = addBlockLines (butlast (split_nl t)) st"
    using assms(1,2) by (simp add: addText_def)
  show "\<exists>new. rootEl st' = append_kids new (rootEl st) \<and> blocks_ok [] new"
    unfolding e using addBlockLines_root [OF assms(3)] blocks_ok_lines by blast
  show "block st' = createElement ''div''"
    unfolding e using addBlockLines_root [OF assms(3)] by blast
qed

lemma closeFrame_outer_root:
  assumes "closeFrame i st = Some st'" "length (stack st) = 1" "head_fresh (block st)"
  shows "\<exists>B. rootEl st' = append_kids [B] (rootEl st) \<and> blocks_ok [i] [B]"
proof -
  from assms obtain f where s: "stack st = [f]" by (cases "stack st") auto
  have a: "appendToFrame 0 (TextNode [ZWSP]) st
      = Some (st\<lparr>stack := [f\<lparr>el := append_child (TextNode [ZWSP]) (el f)\<rparr>]\<rparr>)"
    by (simp add: appendToFrame_def s map_el_def)
  let ?st1 = "st\<lparr>stack := [f\<lparr>el := append_child (TextNode [ZWSP]) (el f)\<rparr>]\<rparr>"
  obtain st2 where p: "pushElement 0 True ?st1 = Some st2"
    using pushElement_Some [of 0 ?st1 True] by auto
  have h2: "head_fresh (block st2)" using pushElement_block_head [OF p] assms(3) by simp
  have r2: "rootEl st2 = rootEl st" using pushElement_fields(2) [OF p] by simp
  have e: "st' = (pushBlock (st2\<lparr>block := setAttribute ''index'' (show_nat i) (block st2)\<rparr>))
                \<lparr>scanOffset := scanOffset st2 + 1, stack := butlast (stack st2)\<rparr>"
    using assms a p by (simp add: closeFrame_def pushBlock_def)
  let ?B = "ElemNode (classList_add (classNamePrefix @ ''block'')
      (setAttribute ''index'' (show_nat i) (block st2)))"
  have "rootEl st' = append_kids [?B] (rootEl st)"
    unfolding e using r2 by (simp add: pushBlock_def append_child_kids)
  moreover have "blocks_ok [i] [?B]"
    using h2 by (simp add: blocks_ok_def is_block_def block_attrs_def head_fresh_def
        classList_add_def setAttribute_def)
  ultimately show ?thesis by blast
qed

lemma visitBody_root_block:
  assumes "visitBody S n eo st = Some st'" "stack st \<noteq> []"
  shows "rootEl st' = rootEl st \<and> head_fresh (block st') = head_fresh (block st)"
proof (cases n)
  case (Literal ty d s e)
  then have a: "addText (js_slice S (scanOffset st) eo) False st = Some st'"
    using assms(1) by (simp add: visitBody_def)
  show ?thesis
    using addText_fields(4) [OF a assms(2)] addText_nonempty_block_head [OF a assms(2)] by simp
next
  case (Parent ty d s e cs)
  then have b: "getChildren_from S cs 0 eo st = Some st'"
    using assms(1) by (simp add: visitBody_def)
  show ?thesis using nested_root_block(1) [OF assms(2) b] .
qed

lemma top_visit_root:
  assumes "stack st = []" "block st = createElement ''div''" "visitNode S n i st = Some st'"
  shows "\<exists>new js. rootEl st' = append_kids new (rootEl st) \<and> blocks_ok js new
      \<and> (js = [] \<and> st' = st \<or> js = [i] \<and> has_range n \<and> new \<noteq> [])"
proof (cases rule: visit_cases [of S n i st])
  case skip
  then have "st' = st" using assms(3) by simp
  then have "rootEl st' = append_kids [] (rootEl st) \<and> blocks_ok [] []
      \<and> ([] = [] \<and> st' = st \<or> [] = [i] \<and> has_range n \<and> [] \<noteq> ([]::child list))"
    by simp
  then show ?thesis by blast
next
  case (visit so eo st1 st3 st'')
  have e: "st'' = st'" using visit(7) assms(3) by simp
  from addText_empty_root [OF visit(4) assms(1,2)] obtain g where
    g: "rootEl st1 = append_kids g (rootEl st)" "blocks_ok [] g"
    and b1: "block st1 = createElement ''div''" by blast
  have n2: "stack (pushFrame n st1) \<noteq> []" by simp
  have r3: "rootEl st3 = rootEl st1" and h3: "head_fresh (block st3)"
    using visitBody_root_block [OF visit(5) n2] b1 by (simp_all add: head_fresh_def)
  have "length (map node (stack st3)) = 1" unfolding visit(9) using assms(1) by simp
  then have l3: "length (stack st3) = 1" by simp
  from closeFrame_outer_root [OF visit(6) l3 h3] obtain B where
    B: "rootEl st'' = append_kids [B] (rootEl st3)" "blocks_ok [i] [B]" by blast
  have "rootEl st' = append_kids (g @ [B]) (rootEl st)"
    using B(1) r3 g(1) e by simp
  moreover have "blocks_ok ([] @ [i]) (g @ [B])"
    using blocks_ok_append [OF g(2) B(2)] .
  moreover have "has_range n" using visit(1,2) by (simp add: has_range_def)
  ultimately have "rootEl st' = append_kids (g @ [B]) (rootEl st) \<and> blocks_ok [i] (g @ [B])
      \<and> ([i] = [] \<and> st' = st \<or> [i] = [i] \<and> has_range n \<and> g @ [B] \<noteq> [])"
    by simp
  then show ?thesis by blast
qed

lemma top_visit_block_fresh:
  assumes "stack st = []" "block st = createElement ''div''" "visitNode S n i st = Some st'"
  shows "stack st' = [] \<and> block st' = createElement ''div''"
proof -
  have e: "stack st' = []"
    using visit_total_aux(2) [of S n i st] assms(1,3) by auto
  have "block_fresh st" using assms(2) by (simp add: block_fresh_def)
  from block_fresh_traversal(2) [OF this assms(3)] e show ?thesis
    by (simp add: block_fresh_def)
qed

lemma top_list_root:
  assumes "stack st = []" "block st = createElement ''div''"
    "getChildren_from S ns i pe st = Some st'"
  shows "\<exists>new js. rootEl st' = append_kids new (rootEl st) \<and> blocks_ok js new
      \<and> sorted_wrt (<) js
      \<and> (\<forall>j\<in>set js. i \<le> j \<and> j < i + length ns \<and> has_range (ns ! (j - i)))"
  using assms
proof (induction ns arbitrary: st i)
  case Nil
  then have a: "addText (js_slice S (scanOffset st) pe) True st = Some st'" by simp
  from addText_empty_root(1) [OF a Nil(1,2)] obtain new where
    "rootEl st' = append_kids new (rootEl st)" "blocks_ok [] new" by blast
  then have "rootEl st' = append_kids new (rootEl st) \<and> blocks_ok [] new
      \<and> sorted_wrt (<) ([]::nat list)
      \<and> (\<forall>j\<in>set []. i \<le> j \<and> j < i + length ([]::mdast list) \<and> has_range ([] ! (j - i)))"
    by simp
  then show ?case by blast
next
  case (Cons n ns)
  from Cons.prems(3) obtain st1 where v: "visitNode S n i st = Some st1"
    and r: "getChildren_from S ns (Suc i) pe st1 = Some st'"
    by (auto simp: bind_eq_Some_conv)
  from top_visit_root [OF Cons.prems(1,2) v] obtain new1 js1 where
    v1: "rootEl st1 = append_kids new1 (rootEl st)" "blocks_ok js1 new1"
      "js1 = [] \<or> js1 = [i] \<and> has_range n" by blast
  have f1: "stack st1 = []" "block st1 = createElement ''div''"
    using top_visit_block_fresh [OF Cons.prems(1,2) v] by simp_all
  from Cons.IH [OF f1 r] obtain new2 js2 where
    v2: "rootEl st' = append_kids new2 (rootEl st1)" "blocks_ok js2 new2"
      "sorted_wrt (<) js2"
      "\<forall>j\<in>set js2. Suc i \<le> j \<and> j < Suc i + length ns \<and> has_range (ns ! (j - Suc i))"
    by blast
  have a: "rootEl st' = append_kids (new1 @ new2) (rootEl st)"
    using v1(1) v2(1) by simp
  have b: "blocks_ok (js1 @ js2) (new1 @ new2)"
    using blocks_ok_append [OF v1(2) v2(2)] .
  have c: "sorted_wrt (<) (js1 @ js2)"
    using v1(3) v2(3,4) by (auto simp: sorted_wrt_append)
  have d: "\<forall>j\<in>set (js1 @ js2). i \<le> j \<and> j < i + length (n # ns)
      \<and> has_range ((n # ns) ! (j - i))"
  proof
    fix j assume "j \<in> set (js1 @ js2)"
    then consider "j \<in> set js1" | "j \<in> set js2" by auto
    then show "i \<le> j \<and> j < i + length (n # ns) \<and> has_range ((n # ns) ! (j - i))"
    proof cases
      case 1
      then have "j = i" "has_range n" using v1(3) by auto
      then show ?thesis by simp
    next
      case 2
      then have j: "Suc i \<le> j" "j < Suc i + length ns" "has_range (ns ! (j - Suc i))"
        using v2(4) by auto
      then have "j - i = Suc (j - Suc i)" by simp
      then show ?thesis using j by simp
    qed
  qed
  from a b c d show ?case by blast
qed

lemma addBlockLines_nonempty:
  "kids (rootEl (addBlockLines ls st)) \<noteq> [] \<longleftrightarrow> ls \<noteq> [] \<or> kids (rootEl st) \<noteq> []"
  by (induction ls arbitrary: st) (simp_all add: pushBlock_def)

lemma addBlockLines_Nil_scanOffset:
  "ls = [] \<Longrightarrow> scanOffset (addBlockLines ls st) = scanOffset st"
  by simp

lemma some_block_traversal:
  shows "scanOffset st \<le> length S \<or> kids (rootEl st) \<noteq> [] \<Longrightarrow>
      getChildren_from S ns i pe st = Some st' \<Longrightarrow>
      scanOffset st' \<le> length S \<or> kids (rootEl st') \<noteq> []"
proof -
  define I where "I = (\<lambda>s::state. scanOffset s \<le> length S \<or> kids (rootEl s) \<noteq> [])"
  have A: "\<And>s x d s'. I s \<Longrightarrow> addText (js_slice S (scanOffset s) x) d s = Some s' \<Longrightarrow> I s'"
  proof -
    fix s x d s'
    assume i: "I s" and a: "addText (js_slice S (scanOffset s) x) d s = Some s'"
    show "I s'"
    proof (cases "stack s = []")
      case True
      then have e: "s' = addBlockLines (butlast (split_nl (js_slice S (scanOffset s) x))) s"
        using a by (simp add: addText_def)
      show ?thesis
      proof (cases "butlast (split_nl (js_slice S (scanOffset s) x)) = []")
        case True
        then show ?thesis using i e by (simp add: I_def)
      next
        case False
        then show ?thesis unfolding e I_def using addBlockLines_nonempty by blast
      qed
    next
      case False
      have "length (js_slice S (scanOffset s) x) \<le> length S - scanOffset s"
        by (simp add: length_js_slice)
      then have "scanOffset s \<le> length S \<Longrightarrow> scanOffset s' \<le> length S"
        using addText_fields(3) [OF a False] by linarith
      then show ?thesis using i addText_fields(4) [OF a False] unfolding I_def by auto
    qed
  qed
  have P: "\<And>s n. I s \<Longrightarrow> I (pushFrame n s)" by (simp add: I_def)
  have C: "\<And>s i s'. I s \<Longrightarrow> stack s \<noteq> [] \<Longrightarrow> closeFrame i s = Some s' \<Longrightarrow> I s'"
  proof -
    fix s i s'
    assume i: "I s" and n: "stack s \<noteq> []" and c: "closeFrame i s = Some s'"
    show "I s'"
    proof (cases "length (stack s) > 1")
      case True
      then show ?thesis using closeFrame_fields(3) [OF c] i unfolding I_def by simp
    next
      case False
      then have "kids (rootEl s') \<noteq> []"
        using c by (auto simp: closeFrame_def bind_eq_Some_conv pushBlock_def)
      then show ?thesis by (simp add: I_def)
    qed
  qed
  have "I st \<Longrightarrow> getChildren_from S ns i pe st = Some st' \<Longrightarrow> I st'"
    by (rule traversal_invariant(1) [where I=I, OF A P C])
  then show "scanOffset st \<le> length S \<or> kids (rootEl st) \<noteq> [] \<Longrightarrow>
      getChildren_from S ns i pe st = Some st' \<Longrightarrow>
      scanOffset st' \<le> length S \<or> kids (rootEl st') \<noteq> []"
    unfolding I_def .
qed

text \<open>The result of \<open>editorRender\<close>: the root of the pass, with the blocks of the last step.\<close>

lemma editorRender_blocks:
  "\<exists>r new js. editorRender S nodes = Some r \<and> r = append_kids new (createElement ''div'')
      \<and> new \<noteq> [] \<and> blocks_ok js new \<and> sorted_wrt (<) js
      \<and> (\<forall>j\<in>set js. j < length nodes \<and> has_range (nodes ! j))"
proof -
  obtain st where p: "renderPass S nodes = Some st" and e: "stack st = []"
    using renderPass_total by blast
  then have g: "getChildren_from S nodes 0 (length S) init_state = Some st"
    by (simp add: renderPass_def getChildren_def)
  have i0: "stack init_state = []" "block init_state = createElement ''div''"
    by (simp_all add: init_state_def)
  from top_list_root [OF i0 g] obtain new js where
    n: "rootEl st = append_kids new (createElement ''div'')" "blocks_ok js new"
      "sorted_wrt (<) js" "\<forall>j\<in>set js. j < length nodes \<and> has_range (nodes ! j)"
    by (auto simp: init_state_def)
  have b: "block st = createElement ''div''"
    using block_fresh_traversal(1) [OF block_fresh_init g] e by (simp add: block_fresh_def)
  have s: "scanOffset st \<le> length S \<or> kids (rootEl st) \<noteq> []"
    using some_block_traversal [OF _ g] by (simp add: init_state_def)
  show ?thesis
  proof (cases "scanOffset st \<le> length S")
    case True
    let ?l = "line_block (drop (scanOffset st) S)"
    have "rootEl (finish S st) = append_kids (new @ [?l]) (createElement ''div'')"
      using True b n(1)
      by (simp add: finish_def pushBlock_def append_child_kids line_block_def
          classList_add_def createElement_def append_kids_def)
    moreover have "blocks_ok (js @ []) (new @ [?l])"
      by (rule blocks_ok_append [OF n(2)]) (simp add: blocks_ok_def)
    ultimately show ?thesis using p n(3,4) by (auto simp: editorRender_def)
  next
    case False
    then have "new \<noteq> []" using s n(1) by auto
    moreover have "rootEl (finish S st) = append_kids new (createElement ''div'')"
      using False n(1) by (simp add: finish_def)
    ultimately show ?thesis using p n(2,3,4) by (auto simp: editorRender_def)
  qed
qed

lemma getChildren_from_empty_src:
  "ends_in [] ns \<Longrightarrow> getChildren_from [] ns i pe st = Some st"
proof (induction ns arbitrary: i)
  case Nil
  then show ?case by (simp add: js_slice_def)
next
  case (Cons n ns)
  have "visitNode [] n i st = Some st"
    using Cons.prems by (intro visitNode_skip) (auto simp: ends_in_def split: option.splits)
  then show ?case using Cons by (simp add: ends_in_def)
qed

lemma addStyle_type_class: "classNamePrefix @ ntype n \<in> set (classes (addStyle n a b e))"
  by (auto simp: addStyle_def Let_def classList_add_classes)

lemma classes_addStyle_mono: "set (classes e) \<subseteq> set (classes (addStyle n a b e))"
  by (auto simp: addStyle_def Let_def classList_add_classes)


lemma desc_kids: "desc e = concat (map self_desc (kids e))"
  by (cases e) simp

lemma desc_ops [simp]:
  "desc (createElement t) = []"
  "desc (classList_add c e) = desc e"
  "desc (append_child ch e) = desc e @ self_desc ch"
  "desc (addStyle n a b e) = desc e"
  "desc (setAttribute k v e) = desc e"
  by (simp_all add: desc_kids)

lemma classes_classList_add_mono: "set (classes e) \<subseteq> set (classes (classList_add c e))"
  by (auto simp: classList_add_classes)

lemma styled_nth:
  assumes "m < length stk"
  shows "node (styled j l stk ! m) = node (stk ! m)"
    and "first (styled j l stk ! m) = first (stk ! m)"
    and "kids (el (styled j l stk ! m)) = kids (el (stk ! m))"
    and "tag (el (styled j l stk ! m)) = tag (el (stk ! m))"
    and "desc (el (styled j l stk ! m)) = desc (el (stk ! m))"
    and "set (classes (el (stk ! m))) \<subseteq> set (classes (el (styled j l stk ! m)))"
    and "m \<noteq> styleIndex stk j \<Longrightarrow> styled j l stk ! m = stk ! m"
    and "m = styleIndex stk j \<Longrightarrow> el (styled j l stk ! m)
          = addStyle (node (stk ! j)) (first (stk ! j)) l (el (stk ! m))"
  using assms classes_addStyle_mono
  by (auto simp: styled_def nth_map_el)

lemma pushElement_inner_nth:
  assumes "0 < j" "pushElement j l st = Some st'"
  shows "stack st' ! j = (stack st ! j)\<lparr>el := createElement ''span'', first := False\<rparr>"
    and "el (stack st' ! (j - 1)) = append_child (ElemNode (el (styled j l (stack st) ! j)))
            (el (styled j l (stack st) ! (j - 1)))"
    and "m < length (stack st) \<Longrightarrow> m \<noteq> j \<Longrightarrow> m \<noteq> j - 1 \<Longrightarrow>
          stack st' ! m = styled j l (stack st) ! m"
    and "block st' = block st"
proof -
  have lt: "j < length (stack st)" using pushElement_fields(6) [OF assms(2)] .
  have l1: "j - 1 < length (stack st)" using lt by linarith
  have e: "stack st' = (map_el (j - 1) (append_child (ElemNode (el (styled j l (stack st) ! j))))
          (styled j l (stack st)))
       [j := (styled j l (stack st) ! j)\<lparr>el := createElement ''span'', first := False\<rparr>]"
    using assms lt by (auto simp: pushElement_inner)
  have sj: "styled j l (stack st) ! j = (stack st ! j)\<lparr>el := el (styled j l (stack st) ! j)\<rparr>"
    using lt by (simp add: styled_def nth_map_el)
  show "stack st' ! j = (stack st ! j)\<lparr>el := createElement ''span'', first := False\<rparr>"
    unfolding e using lt by (subst sj) simp
  show "el (stack st' ! (j - 1)) = append_child (ElemNode (el (styled j l (stack st) ! j)))
            (el (styled j l (stack st) ! (j - 1)))"
    unfolding e using lt l1 assms(1) by (simp add: nth_list_update nth_map_el)
  show "m < length (stack st) \<Longrightarrow> m \<noteq> j \<Longrightarrow> m \<noteq> j - 1 \<Longrightarrow>
          stack st' ! m = styled j l (stack st) ! m"
    unfolding e by (simp add: nth_list_update nth_map_el)
  show "block st' = block st" using pushElement_fields(5) [OF assms(2)] assms(1) by simp
qed

text \<open>What pushing an inner frame keeps: the frames above it, the descendants of its
  own element (now below the parent's), the classes of frame 0.\<close>

lemma pushElement_inner_keeps:
  assumes "0 < j" "pushElement j l st = Some st'"
  shows "m < length (stack st) \<Longrightarrow> j < m \<Longrightarrow> stack st' ! m = stack st ! m"
    and "set (desc (el (stack st ! (j - 1)))) \<subseteq> set (desc (el (stack st' ! (j - 1))))"
    and "set (desc (el (stack st ! j))) \<subseteq> set (desc (el (stack st' ! (j - 1))))"
    and "set (classes (el (stack st ! 0))) \<subseteq> set (classes (el (stack st' ! 0)))"
proof -
  have lt: "j < length (stack st)" using pushElement_fields(6) [OF assms(2)] .
  have l1: "j - 1 < length (stack st)" "0 < length (stack st)" using lt by linarith+
  note nth = pushElement_inner_nth [OF assms]
  show "m < length (stack st) \<Longrightarrow> j < m \<Longrightarrow> stack st' ! m = stack st ! m"
  proof -
    assume m: "m < length (stack st)" "j < m"
    have "m \<noteq> styleIndex (stack st) j" using m(2) assms(1) by (simp add: styleIndex_def)
    then show ?thesis using nth(3) [of m] m styled_nth(7) [OF m(1)] by simp
  qed
  show "set (desc (el (stack st ! (j - 1)))) \<subseteq> set (desc (el (stack st' ! (j - 1))))"
    unfolding nth(2) using styled_nth(5) [OF l1(1), of j l] by auto
  show "set (desc (el (stack st ! j))) \<subseteq> set (desc (el (stack st' ! (j - 1))))"
    unfolding nth(2) using styled_nth(5) [OF lt, of j l] by auto
  show "set (classes (el (stack st ! 0))) \<subseteq> set (classes (el (stack st' ! 0)))"
  proof (cases "j = 1")
    case True
    then show ?thesis using nth(2) styled_nth(6) [OF l1(2), of j l] by simp
  next
    case False
    then have "stack st' ! 0 = styled j l (stack st) ! 0"
      using nth(3) [of 0] l1(2) assms(1) by simp
    then show ?thesis using styled_nth(6) [OF l1(2), of j l] by simp
  qed
qed

lemma flushFrames_keeps:
  assumes "flushFrames j st = Some st'" "j < length (stack st)"
  shows "\<forall>m. m < length (stack st) \<longrightarrow> j < m \<longrightarrow> stack st' ! m = stack st ! m"
    and "set (desc (el (stack st ! j))) \<subseteq> set (desc (el (stack st' ! 0)))"
    and "set (classes (el (stack st ! 0))) \<subseteq> set (classes (el (stack st' ! 0)))"
    and "block st' = block st"
  using assms
proof (induction j arbitrary: st)
  case 0
  {
    case 1 then show ?case by simp
  next
    case 2 then show ?case by simp
  next
    case 3 then show ?case by simp
  next
    case 4 then show ?case by simp
  }
next
  case (Suc j)
  {
    case 1
    from 1(1) obtain st1 where p: "pushElement (Suc j) False st = Some st1"
      and f: "flushFrames j st1 = Some st'"
      by (auto simp: bind_eq_Some_conv)
    have l1: "length (stack st1) = length (stack st)" using pushElement_fields(4) [OF p] .
    then have jl: "j < length (stack st1)" using 1(2) by simp
    show ?case
      using Suc.IH(1) [OF f jl] pushElement_inner_keeps(1) [OF _ p] l1 by simp
  next
    case 2
    from 2(1) obtain st1 where p: "pushElement (Suc j) False st = Some st1"
      and f: "flushFrames j st1 = Some st'"
      by (auto simp: bind_eq_Some_conv)
    have l1: "length (stack st1) = length (stack st)" using pushElement_fields(4) [OF p] .
    then have jl: "j < length (stack st1)" using 2(2) by simp
    show ?case
      using Suc.IH(2) [OF f jl] pushElement_inner_keeps(3) [OF _ p] by auto
  next
    case 3
    from 3(1) obtain st1 where p: "pushElement (Suc j) False st = Some st1"
      and f: "flushFrames j st1 = Some st'"
      by (auto simp: bind_eq_Some_conv)
    have l1: "length (stack st1) = length (stack st)" using pushElement_fields(4) [OF p] .
    then have jl: "j < length (stack st1)" using 3(2) by simp
    show ?case
      using Suc.IH(3) [OF f jl] pushElement_inner_keeps(4) [OF _ p] by auto
  next
    case 4
    from 4(1) obtain st1 where p: "pushElement (Suc j) False st = Some st1"
      and f: "flushFrames j st1 = Some st'"
      by (auto simp: bind_eq_Some_conv)
    have l1: "length (stack st1) = length (stack st)" using pushElement_fields(4) [OF p] .
    then have jl: "j < length (stack st1)" using 4(2) by simp
    show ?case
      using Suc.IH(4) [OF f jl] pushElement_fields(5) [OF p] by simp
  }
qed

lemma kids_in_desc: "c \<in> set (kids e) \<Longrightarrow> c \<in> set (desc e)"
  by (cases c) (auto simp: desc_kids intro!: bexI [of _ c])

lemma addStyle_opaque:
  assumes "opaque (ntype n)" "classes e = []"
  shows "addStyle n True False e = Element (tag e)
      [classNamePrefix @ ntype n, classNamePrefix @ ''first''] (attrs e) (kids e)"
    and "addStyle n False True e = Element (tag e)
      [classNamePrefix @ ntype n, classNamePrefix @ ''last''] (attrs e) (kids e)"
  using assms by (auto simp: opaque_def addStyle_def Let_def classList_add_def)

lemma appendLine_nth:
  assumes "appendLine l False st = Some st'" "stack st \<noteq> []"
  shows "el (stack st' ! (length (stack st) - 1))
      = Element (tag (el (stack st ! (length (stack st) - 1))))
          (classes (el (stack st ! (length (stack st) - 1))))
          (attrs (el (stack st ! (length (stack st) - 1))))
          (kids (el (stack st ! (length (stack st) - 1))) @ text_kids l)"
    and "node (stack st' ! (length (stack st) - 1)) = node (stack st ! (length (stack st) - 1))"
    and "first (stack st' ! (length (stack st) - 1)) = first (stack st ! (length (stack st) - 1))"
    and "m \<noteq> length (stack st) - 1 \<Longrightarrow> stack st' ! m = stack st ! m"
proof -
  have lt: "length (stack st) - 1 < length (stack st)" using assms(2) by (cases "stack st") simp_all
  show "el (stack st' ! (length (stack st) - 1))
      = Element (tag (el (stack st ! (length (stack st) - 1))))
          (classes (el (stack st ! (length (stack st) - 1))))
          (attrs (el (stack st ! (length (stack st) - 1))))
          (kids (el (stack st ! (length (stack st) - 1))) @ text_kids l)"
    using assms lt
    by (cases "l = []")
      (auto simp: appendLine_def appendToFrame_def nth_map_el text_kids_def append_child_def)
  show "node (stack st' ! (length (stack st) - 1)) = node (stack st ! (length (stack st) - 1))"
    using assms lt
    by (cases "l = []") (auto simp: appendLine_def appendToFrame_def nth_map_el)
  show "first (stack st' ! (length (stack st) - 1)) = first (stack st ! (length (stack st) - 1))"
    using assms lt
    by (cases "l = []") (auto simp: appendLine_def appendToFrame_def nth_map_el)
  show "m \<noteq> length (stack st) - 1 \<Longrightarrow> stack st' ! m = stack st ! m"
    using assms lt
    by (cases "l = []") (auto simp: appendLine_def appendToFrame_def map_el_def)
qed

text \<open>A line break inside a node at depth one or more, seen from the top frame.\<close>

lemma breakLine_nested:
  assumes "breakLine st = Some st'" "1 < length (stack st)"
  defines "K \<equiv> length (stack st) - 1"
  shows "stack st' ! K = (stack st ! K)\<lparr>el := createElement ''span'', first := False\<rparr>"
    and "el (stack st' ! 0) = createElement ''div''"
    and "\<exists>L1. kids (block st') = kids (block st) @ [ElemNode L1]
          \<and> (\<not> isFlowContent (node (stack st ! (K - 1))) \<longrightarrow>
               ElemNode (addStyle (node (stack st ! K)) (first (stack st ! K)) False
                  (el (stack st ! K))) \<in> set (desc L1))
          \<and> (isFlowContent (node (stack st ! (K - 1))) \<longrightarrow>
               set (classes (addStyle (node (stack st ! K)) (first (stack st ! K)) False
                  (el (stack st ! 0)))) \<subseteq> set (classes L1))"
proof -
  have K: "0 < K" "K < length (stack st)" "K - 1 < length (stack st)" "0 < length (stack st)"
    "Suc (K - 1) = K"
    unfolding K_def using assms(2) by linarith+
  from assms(1) obtain sF sM where f: "flushFrames K st = Some sF"
    and a: "appendToFrame 0 (TextNode [ZWSP]) sF = Some sM"
    and p: "pushElement 0 False sM = Some st'"
    by (auto simp: breakLine_def bind_eq_Some_conv K_def)
  have "flushFrames K st = pushElement K False st \<bind> flushFrames (K - 1)"
    using flushFrames.simps(2) [of "K - 1" st] K(5) by simp
  with f obtain sB where pk: "pushElement K False st = Some sB"
    and fr: "flushFrames (K - 1) sB = Some sF"
    by (auto simp: bind_eq_Some_conv)
  note nb = pushElement_inner_nth [OF K(1) pk]
  have lB: "length (stack sB) = length (stack st)" using pushElement_fields(4) [OF pk] .
  have lF: "length (stack sF) = length (stack st)"
    using flushFrames_fields [OF fr] lB by (metis length_map)
  note kf = flushFrames_keeps [OF fr, unfolded lB, OF K(3)]
  have eM: "sM = sF\<lparr>stack := map_el 0 (append_child (TextNode [ZWSP])) (stack sF)\<rparr>"
    using a by (auto simp: appendToFrame_def split: if_splits)
  have lM: "0 < length (stack sM)" "length (stack sM) = length (stack st)"
    using eM lF K(4) by simp_all
  have e': "st' = sM\<lparr>stack := (styled 0 False (stack sM))
                [0 := (styled 0 False (stack sM) ! 0)\<lparr>el := createElement ''div'', first := False\<rparr>],
              block := append_child (ElemNode (el (styled 0 False (stack sM) ! 0))) (block sM)\<rparr>"
    using p lM(1) by (simp add: pushElement_outer)
  have si0: "styleIndex (stack sM) 0 = 0" by (simp add: styleIndex_def)
  have KM: "K < length (stack sM)" using lM(2) K(2) by simp
  have "stack st' ! K = stack sM ! K"
    unfolding e' using K(1) KM styled_nth(7) [OF KM, of 0 False] si0 by simp
  also have "\<dots> = stack sF ! K" unfolding eM using K(1) lF K(2) by (simp add: nth_map_el)
  also have "\<dots> = stack sB ! K" using kf(1) K(1,2) by simp
  finally show "stack st' ! K = (stack st ! K)\<lparr>el := createElement ''span'', first := False\<rparr>"
    using nb(1) by simp
  show "el (stack st' ! 0) = createElement ''div''"
    unfolding e' using lM(1) by simp
  let ?L1 = "el (styled 0 False (stack sM) ! 0)"
  have kb: "kids (block st') = kids (block st) @ [ElemNode ?L1]"
    unfolding e' eM using kf(4) nb(4) by simp
  have dM: "desc ?L1 = desc (el (stack sM ! 0))" using styled_nth(5) [OF lM(1)] .
  have dM2: "set (desc (el (stack sF ! 0))) \<subseteq> set (desc (el (stack sM ! 0)))"
    unfolding eM using lF K(4) by (auto simp: nth_map_el)
  have cM: "set (classes (el (stack sF ! 0))) \<subseteq> set (classes ?L1)"
    using styled_nth(6) [OF lM(1), of 0 False] unfolding eM using lF K(4)
    by (simp add: nth_map_el)
  have nf: "\<not> isFlowContent (node (stack st ! (K - 1))) \<longrightarrow>
      ElemNode (addStyle (node (stack st ! K)) (first (stack st ! K)) False (el (stack st ! K)))
        \<in> set (desc ?L1)"
  proof
    assume n: "\<not> isFlowContent (node (stack st ! (K - 1)))"
    then have "styleIndex (stack st) K = K" using K(1) by (simp add: styleIndex_def)
    then have "el (styled K False (stack st) ! K)
        = addStyle (node (stack st ! K)) (first (stack st ! K)) False (el (stack st ! K))"
      using styled_nth(8) [OF K(2), of K False] by simp
    then have "ElemNode (addStyle (node (stack st ! K)) (first (stack st ! K)) False
        (el (stack st ! K))) \<in> set (kids (el (stack sB ! (K - 1))))"
      unfolding nb(2) by simp
    then have "ElemNode (addStyle (node (stack st ! K)) (first (stack st ! K)) False
        (el (stack st ! K))) \<in> set (desc (el (stack sB ! (K - 1))))"
      by (rule kids_in_desc)
    then show "ElemNode (addStyle (node (stack st ! K)) (first (stack st ! K)) False
        (el (stack st ! K))) \<in> set (desc ?L1)"
      using kf(2) dM2 dM by auto
  qed
  have fl: "isFlowContent (node (stack st ! (K - 1))) \<longrightarrow>
      set (classes (addStyle (node (stack st ! K)) (first (stack st ! K)) False
          (el (stack st ! 0)))) \<subseteq> set (classes ?L1)"
  proof
    assume n: "isFlowContent (node (stack st ! (K - 1)))"
    then have si: "styleIndex (stack st) K = 0" by (simp add: styleIndex_def)
    have s0: "el (styled K False (stack st) ! 0)
        = addStyle (node (stack st ! K)) (first (stack st ! K)) False (el (stack st ! 0))"
      using styled_nth(8) [OF K(4), of K False] si by simp
    have "classes (el (stack sB ! 0)) = classes (el (styled K False (stack st) ! 0))"
    proof (cases "K = 1")
      case True
      then show ?thesis using nb(2) by simp
    next
      case False
      then show ?thesis using nb(3) [of 0] K(1,4) by simp
    qed
    then show "set (classes (addStyle (node (stack st ! K)) (first (stack st ! K)) False
          (el (stack st ! 0)))) \<subseteq> set (classes ?L1)"
      using s0 kf(3) cM by auto
  qed
  from kb nf fl show "\<exists>L1. kids (block st') = kids (block st) @ [ElemNode L1]
          \<and> (\<not> isFlowContent (node (stack st ! (K - 1))) \<longrightarrow>
               ElemNode (addStyle (node (stack st ! K)) (first (stack st ! K)) False
                  (el (stack st ! K))) \<in> set (desc L1))
          \<and> (isFlowContent (node (stack st ! (K - 1))) \<longrightarrow>
               set (classes (addStyle (node (stack st ! K)) (first (stack st ! K)) False
                  (el (stack st ! 0)))) \<subseteq> set (classes L1))"
    by blast
qed

lemma addLines_two:
  "addLines [l2] d st = breakLine st \<bind> appendLine l2 d"
proof (cases "breakLine st")
  case None
  then show ?thesis by simp
next
  case (Some a)
  then show ?thesis by (cases "appendLine l2 d a") simp_all
qed

lemma addText_two_lines:
  assumes "split_nl t = [l1, l2]" "stack st \<noteq> []"
  shows "addText t d st = appendLine l1 d st \<bind> breakLine \<bind> appendLine l2 d
      \<bind> (\<lambda>s. Some (s\<lparr>scanOffset := scanOffset s + length t\<rparr>))"
  using assms by (simp add: addText_def Let_def addLines_two)

lemma opaque_top_level:
  assumes "opaque ty" "split_nl (js_slice S (scanOffset st) eo) = [l1, l2]" "stack st = []"
  shows "\<exists>st' B. visitBody S (Literal ty d so (Some eo)) eo
        (pushFrame (Literal ty d so (Some eo)) st) \<bind> closeFrame i = Some st'
      \<and> kids (rootEl st') = kids (rootEl st) @ [ElemNode B]
      \<and> kids B = kids (block st) @
          [ElemNode (Element ''div'' [classNamePrefix @ ty, classNamePrefix @ ''first''] []
             (text_kids l1 @ [TextNode [ZWSP]])),
           ElemNode (Element ''div'' [classNamePrefix @ ty, classNamePrefix @ ''last''] []
             (text_kids l2 @ [TextNode [ZWSP]]))]"
proof -
  let ?n = "Literal ty d so (Some eo)"
  have o: "opaque (ntype ?n)" using assms(1) by simp
  have s2: "stack (pushFrame ?n st) = [\<lparr>node = ?n, el = createElement ''div'', first = True\<rparr>]"
    using assms(3) by simp
  show ?thesis
    using assms(2,3) addStyle_opaque [OF o]
    by (simp add: visitBody_def addText_two_lines s2 appendLine_def appendToFrame_def map_el_def
        breakLine_def pushElement_def Let_def styleIndex_def closeFrame_def pushBlock_def
        text_kids_def createElement_def append_child_def)
qed

lemma opaque_nested:
  assumes "opaque ty" "split_nl (js_slice S (scanOffset st) eo) = [l1, l2]" "stack st \<noteq> []"
  shows "\<exists>st' L1. visitBody S (Literal ty d so (Some eo)) eo
        (pushFrame (Literal ty d so (Some eo)) st) \<bind> closeFrame i = Some st'
      \<and> last (kids (block st')) = ElemNode L1
      \<and> (\<not> isFlowContent (node (last (stack st))) \<longrightarrow>
            ElemNode (Element ''span'' [classNamePrefix @ ty, classNamePrefix @ ''first''] []
               (text_kids l1)) \<in> set (desc L1)
            \<and> last (kids (el (last (stack st')))) =
                ElemNode (Element ''span'' [classNamePrefix @ ty, classNamePrefix @ ''last''] []
                  (text_kids l2)))
      \<and> (isFlowContent (node (last (stack st))) \<longrightarrow>
            classNamePrefix @ ty \<in> set (classes L1)
            \<and> classNamePrefix @ ''first'' \<in> set (classes L1)
            \<and> classes (el (stack st' ! 0)) = [classNamePrefix @ ty, classNamePrefix @ ''last''])"
proof -
  let ?n = "Literal ty d so (Some eo)"
  let ?t = "js_slice S (scanOffset st) eo"
  define K where "K = length (stack st)"
  define s2 where "s2 = pushFrame ?n st"
  have o: "opaque (ntype ?n)" using assms(1) by simp
  have K: "0 < K" "K - 1 < length (stack st)" "last (stack st) = stack st ! (K - 1)"
    using assms(3) by (simp_all add: K_def last_conv_nth)
  have l2: "length (stack s2) = Suc K" "stack s2 \<noteq> []" "length (stack s2) - 1 = K"
    by (simp_all add: s2_def K_def)
  have top2: "stack s2 ! K = \<lparr>node = ?n, el = createElement ''span'', first = True\<rparr>"
    using assms(3) by (simp add: s2_def K_def nth_append)
  have low2: "\<And>m. m < K \<Longrightarrow> stack s2 ! m = stack st ! m"
    by (simp add: s2_def K_def nth_append)
  obtain sA where a1: "appendLine l1 False s2 = Some sA" using appendLine_Some [OF l2(2)] by blast
  note nA = appendLine_nth [OF a1 l2(2), unfolded l2(3)]
  have lA: "length (stack sA) = Suc K" using appendLine_fields(5) [OF a1] l2(1) by simp
  have topA: "stack sA ! K = \<lparr>node = ?n, el = Element ''span'' [] [] (text_kids l1), first = True\<rparr>"
    using nA(1,2,3) top2 by (cases "stack sA ! K") (simp add: createElement_def)
  have lowA: "\<And>m. m < K \<Longrightarrow> stack sA ! m = stack st ! m"
    using nA(4) low2 by simp
  have nAe: "stack sA \<noteq> []" "1 < length (stack sA)" "length (stack sA) - 1 = K"
    using lA K(1) by auto
  obtain sC where b: "breakLine sA = Some sC" using breakLine_Some [OF nAe(1)] by blast
  note nC = breakLine_nested [OF b nAe(2), unfolded nAe(3)]
  have lC: "length (stack sC) = Suc K"
    using breakLine_fields(3) [OF b] lA by (metis length_map)
  from nC(3) obtain L1 where L1: "kids (block sC) = kids (block sA) @ [ElemNode L1]"
    "\<not> isFlowContent (node (stack sA ! (K - 1))) \<longrightarrow>
        ElemNode (addStyle (node (stack sA ! K)) (first (stack sA ! K)) False
                  (el (stack sA ! K))) \<in> set (desc L1)"
    "isFlowContent (node (stack sA ! (K - 1))) \<longrightarrow>
        set (classes (addStyle (node (stack sA ! K)) (first (stack sA ! K)) False
                  (el (stack sA ! 0)))) \<subseteq> set (classes L1)"
    by blast
  have nCe: "stack sC \<noteq> []" "length (stack sC) - 1 = K" using lC by auto
  obtain sD where a2: "appendLine l2 False sC = Some sD" using appendLine_Some [OF nCe(1)] by blast
  note nD = appendLine_nth [OF a2 nCe(1), unfolded nCe(2)]
  have lD: "length (stack sD) = Suc K" using appendLine_fields(5) [OF a2] lC by simp
  have topD: "stack sD ! K = \<lparr>node = ?n, el = Element ''span'' [] [] (text_kids l2), first = False\<rparr>"
    using nD(1,2,3) nC(1) topA by (cases "stack sD ! K") (simp add: createElement_def)
  have el0D: "el (stack sD ! 0) = createElement ''div''"
    using nD(4) [of 0] nC(2) K(1) by simp
  have nodeD: "node (stack sD ! (K - 1)) = node (stack st ! (K - 1))"
  proof -
    have "map node (stack sD) = map node (stack st) @ [?n]"
      using appendLine_fields(4) [OF a2] breakLine_fields(3) [OF b] appendLine_fields(4) [OF a1]
      by (simp add: s2_def)
    then have "map node (stack sD) ! (K - 1) = (map node (stack st) @ [?n]) ! (K - 1)" by simp
    then show ?thesis using K(2) lD K(1) by (simp add: nth_append K_def)
  qed
  define sD' where "sD' = sD\<lparr>scanOffset := scanOffset sD + length ?t\<rparr>"
  have body: "visitBody S ?n eo (pushFrame ?n st) = Some sD'"
    using addText_two_lines [OF assms(2) l2(2), of False] a1 b a2
    by (simp add: visitBody_def s2_def sD'_def)
  have lD': "1 < length (stack sD')" "length (stack sD') - 1 = K" "K < length (stack sD')"
    "stack sD' = stack sD"
    using lD K(1) by (simp_all add: sD'_def)
  obtain sE where pe: "pushElement K True sD' = Some sE"
    using pushElement_Some [OF lD'(3)] by blast
  define st' where "st' = sE\<lparr>stack := butlast (stack sE)\<rparr>"
  have cl: "closeFrame i sD' = Some st'"
    using lD'(1,2) pe by (simp add: closeFrame_def st'_def)
  note nE = pushElement_inner_nth [OF K(1) pe, unfolded lD'(4)]
  have lE: "length (stack sE) = Suc K" using pushElement_fields(4) [OF pe] lD lD'(4) by simp
  have bl: "kids (block st') = kids (block sA) @ [ElemNode L1]"
    using nE(4) L1(1) appendLine_fields(3) [OF a2] by (simp add: st'_def sD'_def)
  have last_block: "last (kids (block st')) = ElemNode L1" using bl by simp
  have KD: "K < length (stack sD)" "0 < length (stack sD)" "K - 1 < length (stack sD)"
    using lD K(1) by simp_all
  have nonflow: "\<not> isFlowContent (node (last (stack st))) \<longrightarrow>
            ElemNode (Element ''span'' [classNamePrefix @ ty, classNamePrefix @ ''first''] []
               (text_kids l1)) \<in> set (desc L1)
            \<and> last (kids (el (last (stack st')))) =
                ElemNode (Element ''span'' [classNamePrefix @ ty, classNamePrefix @ ''last''] []
                  (text_kids l2))"
  proof
    assume nf: "\<not> isFlowContent (node (last (stack st)))"
    then have nfA: "\<not> isFlowContent (node (stack sA ! (K - 1)))"
      using K(3) lowA [of "K - 1"] K(1) by simp
    have e1: "ElemNode (Element ''span'' [classNamePrefix @ ty, classNamePrefix @ ''first''] []
               (text_kids l1)) \<in> set (desc L1)"
      using L1(2) nfA topA addStyle_opaque(1) [OF o, of "Element ''span'' [] [] (text_kids l1)"]
      by simp
    have "styleIndex (stack sD) K = K"
      using nf K(1,3) nodeD by (simp add: styleIndex_def)
    then have "el (styled K True (stack sD) ! K)
        = Element ''span'' [classNamePrefix @ ty, classNamePrefix @ ''last''] [] (text_kids l2)"
      using styled_nth(8) [OF KD(1), of K True] topD
        addStyle_opaque(2) [OF o, of "Element ''span'' [] [] (text_kids l2)"]
      by simp
    then have "last (kids (el (stack sE ! (K - 1)))) =
        ElemNode (Element ''span'' [classNamePrefix @ ty, classNamePrefix @ ''last''] []
                  (text_kids l2))"
      unfolding nE(2) by simp
    moreover have "last (stack st') = stack sE ! (K - 1)"
    proof -
      have "butlast (stack sE) \<noteq> []" using lE K(1) by (cases "stack sE") auto
      then have "last (butlast (stack sE)) = butlast (stack sE) ! (length (butlast (stack sE)) - 1)"
        by (rule last_conv_nth)
      also have "\<dots> = stack sE ! (K - 1)"
        using lE K(1) by (simp add: nth_butlast)
      finally show ?thesis by (simp add: st'_def)
    qed
    ultimately show "ElemNode (Element ''span'' [classNamePrefix @ ty, classNamePrefix @ ''first''] []
               (text_kids l1)) \<in> set (desc L1)
            \<and> last (kids (el (last (stack st')))) =
                ElemNode (Element ''span'' [classNamePrefix @ ty, classNamePrefix @ ''last''] []
                  (text_kids l2))"
      using e1 by simp
  qed
  have flow: "isFlowContent (node (last (stack st))) \<longrightarrow>
            classNamePrefix @ ty \<in> set (classes L1)
            \<and> classNamePrefix @ ''first'' \<in> set (classes L1)
            \<and> classes (el (stack st' ! 0)) = [classNamePrefix @ ty, classNamePrefix @ ''last'']"
  proof
    assume f: "isFlowContent (node (last (stack st)))"
    then have fA: "isFlowContent (node (stack sA ! (K - 1)))"
      using K(3) lowA [of "K - 1"] K(1) by simp
    have "classNamePrefix @ ty \<in> set (classes (addStyle ?n True False (el (stack sA ! 0))))"
      using addStyle_type_class [of ?n] by simp
    moreover have "classNamePrefix @ ''first'' \<in> set (classes (addStyle ?n True False (el (stack sA ! 0))))"
      using assms(1) by (auto simp: addStyle_def Let_def opaque_def classList_add_classes)
    ultimately have c1: "classNamePrefix @ ty \<in> set (classes L1)"
      "classNamePrefix @ ''first'' \<in> set (classes L1)"
      using L1(3) fA topA by auto
    have "styleIndex (stack sD) K = 0"
      using f K(3) nodeD by (simp add: styleIndex_def)
    then have s0: "el (styled K True (stack sD) ! 0) = addStyle ?n False True (createElement ''div'')"
      using styled_nth(8) [OF KD(2), of K True] topD el0D by simp
    have "classes (el (stack sE ! 0)) = classes (el (styled K True (stack sD) ! 0))"
    proof (cases "K = 1")
      case True
      then show ?thesis using nE(2) by simp
    next
      case False
      then show ?thesis using nE(3) [of 0] K(1) KD(2) by simp
    qed
    then have "classes (el (stack sE ! 0)) = [classNamePrefix @ ty, classNamePrefix @ ''last'']"
      using s0 addStyle_opaque(2) [OF o, of "createElement ''div''"] by simp
    moreover have "stack st' ! 0 = stack sE ! 0"
      using lE K(1) by (simp add: st'_def nth_butlast)
    ultimately show "classNamePrefix @ ty \<in> set (classes L1)
            \<and> classNamePrefix @ ''first'' \<in> set (classes L1)
            \<and> classes (el (stack st' ! 0)) = [classNamePrefix @ ty, classNamePrefix @ ''last'']"
      using c1 by simp
  qed
  have "visitBody S ?n eo (pushFrame ?n st) \<bind> closeFrame i = Some st'"
    using body cl by simp
  then show ?thesis using last_block nonflow flow by blast
qed

lemma split_nl_no_NL:
  "NL \<notin> set g \<Longrightarrow> split_nl (g @ t) = (g @ hd (split_nl t)) # tl (split_nl t)"
  by (induction g) auto

lemma last_split_nl_no_NL: "NL \<notin> set (last (split_nl t))"
proof (induction t)
  case Nil
  then show ?case by simp
next
  case (Cons c t)
  then show ?case by (cases "split_nl t") (auto split: if_splits)
qed

lemma js_slice_append:
  assumes "a \<le> b" "b \<le> c"
  shows "js_slice S a c = js_slice S a b @ js_slice S b c"
proof -
  have "c - a = (b - a) + (c - b)" using assms by simp
  then have "take (c - a) (drop a S) = take (b - a) (drop a S) @ take (c - b) (drop (b - a) (drop a S))"
    by (simp only: take_add)
  then show ?thesis using assms by (simp add: js_slice_def)
qed

lemma two_lines_range:
  assumes "split_nl (js_slice S so eo) = [l1, l2]"
  shows "so < eo" "so < length S"
proof -
  have "js_slice S so eo \<noteq> []" using assms by auto
  then have "0 < length (js_slice S so eo)" by simp
  then have "0 < min (eo - so) (length S - so)"
    unfolding length_js_slice .
  then show "so < eo" "so < length S" by simp_all
qed

lemma addBlockLines_kids:
  "kids (block st) = [] \<Longrightarrow> kids (block (addBlockLines ls st)) = []"
  by (induction ls arbitrary: st) (simp_all add: pushBlock_def)

lemma gap_top_level:
  assumes "stack st = []" "scanOffset st \<le> so"
  shows "js_slice S (scanOffset (addBlockLines (butlast (split_nl (js_slice S (scanOffset st) so))) st)) so
         = last (split_nl (js_slice S (scanOffset st) so))"
    and "scanOffset (addBlockLines (butlast (split_nl (js_slice S (scanOffset st) so))) st) \<le> so"
proof -
  let ?gap = "js_slice S (scanOffset st) so"
  let ?P = "concat (map (\<lambda>l. l @ [NL]) (butlast (split_nl ?gap)))"
  let ?s1 = "addBlockLines (butlast (split_nl ?gap)) st"
  have sc: "scanOffset ?s1 = scanOffset st + length ?P"
    using addBlockLines_emitted [OF assms(1)] by simp
  have g: "?P @ last (split_nl ?gap) = ?gap" by (rule split_nl_lines)
  have "length ?P \<le> length ?gap" using arg_cong [OF g, of length] by simp
  also have "\<dots> \<le> so - scanOffset st" by (simp add: length_js_slice)
  finally have le: "length ?P \<le> so - scanOffset st" .
  show "scanOffset ?s1 \<le> so" using sc le assms(2) by simp
  have "js_slice S (scanOffset ?s1) so
      = take (so - scanOffset st - length ?P) (drop (length ?P) (drop (scanOffset st) S))"
    unfolding sc by (simp add: js_slice_def add.commute)
  also have "\<dots> = drop (length ?P) (take (so - scanOffset st) (drop (scanOffset st) S))"
    by (simp only: drop_take)
  also have "\<dots> = drop (length ?P) ?gap" by (simp add: js_slice_def)
  also have "\<dots> = last (split_nl ?gap)" using arg_cong [OF g, of "drop (length ?P)"] by simp
  finally show "js_slice S (scanOffset ?s1) so = last (split_nl ?gap)" .
qed

lemma addStyle_not_opaque:
  "\<not> opaque (ntype n) \<Longrightarrow> addStyle n a b e =
     (if ntype n = ''heading''
      then classList_add (classNamePrefix @ ''heading'' @ show_nat (ndepth n))
             (classList_add (classNamePrefix @ ntype n) e)
      else classList_add (classNamePrefix @ ntype n) e)"
  by (simp add: addStyle_def Let_def opaque_def)

lemma opaque_visit_top:
  assumes "opaque ty" "scanOffset st \<le> so" "split_nl (js_slice S so eo) = [l1, l2]"
    "stack st = []"
  shows "\<exists>st' B pre. visitNode S (Literal ty d (Some so) (Some eo)) i st = Some st'
      \<and> last (kids (rootEl st')) = ElemNode B
      \<and> kids B = pre @
          [ElemNode (Element ''div'' [classNamePrefix @ ty, classNamePrefix @ ''first''] []
             (text_kids (last (split_nl (js_slice S (scanOffset st) so)) @ l1)
                @ [TextNode [ZWSP]])),
           ElemNode (Element ''div'' [classNamePrefix @ ty, classNamePrefix @ ''last''] []
             (text_kids l2 @ [TextNode [ZWSP]]))]
      \<and> (kids (block st) = [] \<longrightarrow> pre = [])"
proof -
  let ?n = "Literal ty d (Some so) (Some eo)"
  let ?gap = "js_slice S (scanOffset st) so"
  let ?g = "last (split_nl ?gap)"
  define s1 where "s1 = addBlockLines (butlast (split_nl ?gap)) st"
  note r = two_lines_range [OF assms(3)]
  have m: "max so (scanOffset st) = so" using assms(2) by simp
  have a: "addText ?gap True st = Some s1" using assms(4) by (simp add: addText_def s1_def)
  have v: "visitNode S ?n i st = visitBody S ?n eo (pushFrame ?n s1) \<bind> closeFrame i"
    using visitNode_visit [of ?n so eo st S i] r(1) a unfolding m by simp
  have e1: "stack s1 = []" using addBlockLines_fields assms(4) by (simp add: s1_def)
  have le: "scanOffset s1 \<le> so" unfolding s1_def by (rule gap_top_level(2) [OF assms(4,2)])
  have "js_slice S (scanOffset s1) eo = js_slice S (scanOffset s1) so @ js_slice S so eo"
    using le r(1) by (intro js_slice_append) simp_all
  also have "js_slice S (scanOffset s1) so = ?g"
    unfolding s1_def by (rule gap_top_level(1) [OF assms(4,2)])
  finally have "split_nl (js_slice S (scanOffset s1) eo) = [?g @ l1, l2]"
    using split_nl_no_NL [OF last_split_nl_no_NL, of ?gap "js_slice S so eo"] assms(3) by simp
  from opaque_top_level [OF assms(1) this e1, of d "Some so" i] obtain st' B where
    st': "visitBody S (Literal ty d (Some so) (Some eo)) eo
         (pushFrame (Literal ty d (Some so) (Some eo)) s1) \<bind> closeFrame i = Some st'"
      "kids (rootEl st') = kids (rootEl s1) @ [ElemNode B]"
      "kids B = kids (block s1) @
          [ElemNode (Element ''div'' [classNamePrefix @ ty, classNamePrefix @ ''first''] []
             (text_kids (?g @ l1) @ [TextNode [ZWSP]])),
           ElemNode (Element ''div'' [classNamePrefix @ ty, classNamePrefix @ ''last''] []
             (text_kids l2 @ [TextNode [ZWSP]]))]"
    by blast
  have l: "last (kids (rootEl st')) = ElemNode B" using st'(2) by simp
  have p: "kids (block st) = [] \<longrightarrow> kids (block s1) = []"
    using addBlockLines_kids by (simp add: s1_def)
  have v': "visitNode S ?n i st = Some st'" using v st'(1) by simp
  show ?thesis
    by (rule exI [of _ st'], rule exI [of _ B], rule exI [of _ "kids (block s1)"])
      (intro conjI v' l st'(3) p)
qed

lemma opaque_visit_nested:
  assumes "opaque ty" "scanOffset st \<le> so" "split_nl (js_slice S so eo) = [l1, l2]"
    "stack st \<noteq> []"
  shows "\<exists>st' L1. visitNode S (Literal ty d (Some so) (Some eo)) i st = Some st'
      \<and> last (kids (block st')) = ElemNode L1
      \<and> (\<not> isFlowContent (node (last (stack st))) \<longrightarrow>
            ElemNode (Element ''span'' [classNamePrefix @ ty, classNamePrefix @ ''first''] []
               (text_kids l1)) \<in> set (desc L1)
            \<and> last (kids (el (last (stack st')))) =
                ElemNode (Element ''span'' [classNamePrefix @ ty, classNamePrefix @ ''last''] []
                  (text_kids l2)))
      \<and> (isFlowContent (node (last (stack st))) \<longrightarrow>
            classNamePrefix @ ty \<in> set (classes L1)
            \<and> classNamePrefix @ ''first'' \<in> set (classes L1)
            \<and> classes (el (stack st' ! 0)) = [classNamePrefix @ ty, classNamePrefix @ ''last''])"
proof -
  let ?n = "Literal ty d (Some so) (Some eo)"
  let ?gap = "js_slice S (scanOffset st) so"
  note r = two_lines_range [OF assms(3)]
  have m: "max so (scanOffset st) = so" using assms(2) by simp
  obtain s1 where a: "addText ?gap True st = Some s1" using addText_Some by blast
  have v: "visitNode S ?n i st = visitBody S ?n eo (pushFrame ?n s1) \<bind> closeFrame i"
    using visitNode_visit [of ?n so eo st S i] r(1) a unfolding m by simp
  have nodes: "map node (stack s1) = map node (stack st)" by (rule addText_fields(1) [OF a])
  have ne: "stack s1 \<noteq> []" using nodes assms(4) by auto
  have "node (last (stack s1)) = last (map node (stack s1))" using ne by (simp add: last_map)
  also have "\<dots> = node (last (stack st))" unfolding nodes using assms(4) by (simp add: last_map)
  finally have par: "node (last (stack s1)) = node (last (stack st))" .
  have "length ?gap = so - scanOffset st"
    using r(2) assms(2) by (simp add: length_js_slice)
  then have sc: "scanOffset s1 = so"
    using addText_fields(3) [OF a assms(4)] assms(2) by simp
  have sp: "split_nl (js_slice S (scanOffset s1) eo) = [l1, l2]" unfolding sc by (rule assms(3))
  show ?thesis
    using opaque_nested [OF assms(1) sp ne, of d "Some so" i] unfolding par v [symmetric] .
qed

lemma unmarked_ops [simp]:
  "unmarked (createElement t)"
  "unmarked (classList_add c e) \<longleftrightarrow> unmarked e \<and> \<not> marker c"
  "unmarked (append_child ch e) \<longleftrightarrow> unmarked e \<and> unmarked_child ch"
  "unmarked (setAttribute k v e) \<longleftrightarrow> unmarked e"
  by (cases e; auto simp: createElement_def classList_add_def append_child_def setAttribute_def)+

lemma not_marker [simp]:
  "\<not> marker (classNamePrefix @ ''block'')"
  "\<not> marker (classNamePrefix @ ''delimiter'')"
  "\<not> marker (classNamePrefix @ ''heading'' @ s)"
  by (simp_all add: marker_def)

lemma plain_node: "plain n \<Longrightarrow> \<not> opaque (ntype n) \<and> \<not> marker (classNamePrefix @ ntype n)"
  by (cases n) (simp_all add: marker_def)

lemma unmarked_addStyle: "plain n \<Longrightarrow> unmarked e \<Longrightarrow> unmarked (addStyle n a b e)"
proof -
  assume p: "plain n" and u: "unmarked e"
  note n = plain_node [OF p]
  show ?thesis
  proof (cases "ntype n = ''heading''")
    case True
    have "\<not> marker (classNamePrefix @ ''heading'' @ show_nat (ndepth n))" by (rule not_marker(3))
    moreover have "\<not> marker (classNamePrefix @ ''heading'')" using n True by simp
    ultimately show ?thesis using n u True
      by (simp only: addStyle_not_opaque unmarked_ops if_True simp_thms)
  next
    case False
    then show ?thesis using n u by (simp add: addStyle_not_opaque)
  qed
qed

lemma unmarked_created [simp]: "unmarked (createDelimiter t)" "unmarked (createLine t)"
  by (simp_all add: createDelimiter_def createLine_def)

lemma frames_update:
  "\<forall>f\<in>set stk. P f \<Longrightarrow> (i < length stk \<Longrightarrow> P v) \<Longrightarrow> \<forall>f\<in>set (stk[i := v]). P f"
proof (cases "i < length stk")
  case True
  assume a: "\<forall>f\<in>set stk. P f" and v: "i < length stk \<Longrightarrow> P v"
  have "set (stk[i := v]) \<subseteq> insert v (set stk)" by (rule set_update_subset_insert)
  then show ?thesis using a v [OF True] by auto
next
  case False
  assume "\<forall>f\<in>set stk. P f"
  then show ?thesis using False by (simp add: list_update_beyond)
qed

lemma frames_map_el:
  assumes "\<forall>f\<in>set stk. unmarked (el f) \<and> plain (node f)"
    and "\<And>e. unmarked e \<Longrightarrow> unmarked (g e)"
  shows "\<forall>f\<in>set (map_el k g stk). unmarked (el f) \<and> plain (node f)"
  unfolding map_el_def using assms by (intro frames_update) simp_all

lemma frames_styled:
  assumes "\<forall>f\<in>set stk. unmarked (el f) \<and> plain (node f)" "index < length stk"
  shows "\<forall>f\<in>set (styled index l stk). unmarked (el f) \<and> plain (node f)"
proof -
  have "plain (node (stk ! index))" using assms by simp
  then show ?thesis unfolding styled_def
    by (intro frames_map_el assms(1) unmarked_addStyle)
qed

lemma pushElement_unmarked:
  assumes "unmarked_state st" "pushElement index l st = Some st'"
  shows "unmarked_state st'"
proof -
  have lt: "index < length (stack st)" by (rule pushElement_fields(6) [OF assms(2)])
  have fr: "\<forall>f\<in>set (stack st). unmarked (el f) \<and> plain (node f)"
    using assms(1) by (simp add: unmarked_state_def)
  note s = frames_styled [OF fr lt, of l]
  have top: "unmarked (el (styled index l (stack st) ! index))"
    "plain (node (styled index l (stack st) ! index))"
    using s lt nth_mem [of index "styled index l (stack st)"] by (simp_all del: node_styled_nth)
  show ?thesis
  proof (cases "index = 0")
    case True
    have "st' = st\<lparr>stack := (styled 0 l (stack st))
                [0 := (styled 0 l (stack st) ! 0)\<lparr>el := createElement ''div'', first := False\<rparr>],
              block := append_child (ElemNode (el (styled 0 l (stack st) ! 0))) (block st)\<rparr>"
      using assms(2) lt True by (simp add: pushElement_outer)
    moreover have "\<forall>f\<in>set ((styled 0 l (stack st))
                [0 := (styled 0 l (stack st) ! 0)\<lparr>el := createElement ''div'', first := False\<rparr>]).
        unmarked (el f) \<and> plain (node f)"
      using s top True by (intro frames_update) simp_all
    ultimately show ?thesis using assms(1) top True by (simp add: unmarked_state_def)
  next
    case False
    have "st' = st\<lparr>stack :=
       (map_el (index - 1) (append_child (ElemNode (el (styled index l (stack st) ! index))))
          (styled index l (stack st)))
       [index := (styled index l (stack st) ! index)\<lparr>el := createElement ''span'', first := False\<rparr>]\<rparr>"
      using assms(2) lt False by (simp add: pushElement_inner)
    moreover have "\<forall>f\<in>set ((map_el (index - 1) (append_child (ElemNode (el (styled index l (stack st) ! index))))
          (styled index l (stack st)))
       [index := (styled index l (stack st) ! index)\<lparr>el := createElement ''span'', first := False\<rparr>]).
        unmarked (el f) \<and> plain (node f)"
      using top by (intro frames_update frames_map_el s) simp_all
    ultimately show ?thesis using assms(1) by (simp add: unmarked_state_def)
  qed
qed

lemma appendToFrame_unmarked:
  assumes "unmarked_state st" "unmarked_child c" "appendToFrame k c st = Some st'"
  shows "unmarked_state st'"
proof -
  have "st' = st\<lparr>stack := map_el k (append_child c) (stack st)\<rparr>"
    using assms(3) by (auto simp: appendToFrame_def split: if_splits)
  moreover have "\<forall>f\<in>set (map_el k (append_child c) (stack st)). unmarked (el f) \<and> plain (node f)"
    using assms(1,2) by (intro frames_map_el) (simp_all add: unmarked_state_def)
  ultimately show ?thesis using assms(1) by (simp add: unmarked_state_def)
qed

lemma appendLine_unmarked:
  assumes "unmarked_state st" "appendLine l d st = Some st'"
  shows "unmarked_state st'"
proof (cases "l = []")
  case True
  then show ?thesis using assms by (simp add: appendLine_def)
next
  case False
  then have "appendToFrame (length (stack st) - 1)
      (if d then ElemNode (createDelimiter l) else TextNode l) st = Some st'"
    using assms(2) by (simp add: appendLine_def)
  then show ?thesis by (rule appendToFrame_unmarked [OF assms(1), rotated]) simp
qed

lemma flushFrames_unmarked:
  "unmarked_state st \<Longrightarrow> flushFrames j st = Some st' \<Longrightarrow> unmarked_state st'"
proof (induction j arbitrary: st)
  case 0
  then show ?case by simp
next
  case (Suc j)
  from Suc.prems(2) obtain s1 where p: "pushElement (Suc j) False st = Some s1"
    and f: "flushFrames j s1 = Some st'" by (auto simp: bind_eq_Some_conv)
  show ?case by (rule Suc.IH [OF pushElement_unmarked [OF Suc.prems(1) p] f])
qed

lemma breakLine_unmarked:
  assumes "unmarked_state st" "breakLine st = Some st'"
  shows "unmarked_state st'"
proof -
  from assms(2) obtain s1 s2 where f: "flushFrames (length (stack st) - 1) st = Some s1"
    and a: "appendToFrame 0 (TextNode [ZWSP]) s1 = Some s2"
    and p: "pushElement 0 False s2 = Some st'"
    by (auto simp: breakLine_def bind_eq_Some_conv)
  have "unmarked_state s1" by (rule flushFrames_unmarked [OF assms(1) f])
  then have "unmarked_state s2" by (rule appendToFrame_unmarked [OF _ _ a]) simp
  then show ?thesis by (rule pushElement_unmarked [OF _ p])
qed

lemma addLines_unmarked:
  "unmarked_state st \<Longrightarrow> addLines ls d st = Some st' \<Longrightarrow> unmarked_state st'"
proof (induction ls arbitrary: st)
  case Nil
  then show ?case by simp
next
  case (Cons l ls)
  from Cons.prems(2) obtain s1 s2 where b: "breakLine st = Some s1"
    and a: "appendLine l d s1 = Some s2" and r: "addLines ls d s2 = Some st'"
    by (auto simp: bind_eq_Some_conv)
  show ?case
    by (rule Cons.IH [OF appendLine_unmarked [OF breakLine_unmarked [OF Cons.prems(1) b] a] r])
qed

lemma addBlockLines_unmarked:
  "unmarked_state st \<Longrightarrow> unmarked_state (addBlockLines ls st)"
proof (induction ls arbitrary: st)
  case Nil
  then show ?case by simp
next
  case (Cons l ls)
  have "unmarked_state ((pushBlock (st\<lparr>block := append_child (ElemNode (createLine l)) (block st)\<rparr>))
          \<lparr>scanOffset := scanOffset st + (length l + 1)\<rparr>)"
    using Cons.prems by (simp add: unmarked_state_def pushBlock_def)
  then show ?case using Cons.IH by simp
qed

lemma addText_unmarked:
  assumes "unmarked_state st" "addText t d st = Some st'"
  shows "unmarked_state st'"
proof (cases "stack st = []")
  case True
  then show ?thesis using assms addBlockLines_unmarked by (auto simp: addText_def)
next
  case False
  from assms(2) False obtain s1 s2 where a: "appendLine (hd (split_nl t)) d st = Some s1"
    and r: "addLines (tl (split_nl t)) d s1 = Some s2"
    and e: "st' = s2\<lparr>scanOffset := scanOffset s2 + length t\<rparr>"
    by (auto simp: addText_def Let_def bind_eq_Some_conv)
  have "unmarked_state s2"
    by (rule addLines_unmarked [OF appendLine_unmarked [OF assms(1) a] r])
  then show ?thesis by (simp add: e unmarked_state_def)
qed

lemma pushFrame_unmarked: "unmarked_state st \<Longrightarrow> plain n \<Longrightarrow> unmarked_state (pushFrame n st)"
  by (simp add: unmarked_state_def pushFrame_def)

lemma pop_unmarked:
  "unmarked_state st \<Longrightarrow> unmarked_state (st\<lparr>stack := butlast (stack st)\<rparr>)"
  by (auto simp: unmarked_state_def dest: in_set_butlastD)

lemma closeFrame_unmarked:
  assumes "unmarked_state st" "closeFrame i st = Some st'"
  shows "unmarked_state st'"
proof (cases "length (stack st) > 1")
  case True
  then obtain s1 where p: "pushElement (length (stack st) - 1) True st = Some s1"
    and e: "st' = s1\<lparr>stack := butlast (stack s1)\<rparr>"
    using assms(2) by (auto simp: closeFrame_def bind_eq_Some_conv)
  show ?thesis unfolding e by (rule pop_unmarked [OF pushElement_unmarked [OF assms(1) p]])
next
  case False
  then obtain s1 s2 where a: "appendToFrame 0 (TextNode [ZWSP]) st = Some s1"
    and p: "pushElement 0 True s1 = Some s2"
    and e: "st' = ((pushBlock (s2\<lparr>block := setAttribute ''index'' (show_nat i) (block s2)\<rparr>))
                \<lparr>scanOffset := scanOffset s2 + 1\<rparr>)\<lparr>stack := butlast (stack s2)\<rparr>"
    using assms(2) by (auto simp: closeFrame_def bind_eq_Some_conv pushBlock_def)
  have "unmarked_state s1" by (rule appendToFrame_unmarked [OF assms(1) _ a]) simp
  then have "unmarked_state s2" by (rule pushElement_unmarked [OF _ p])
  then show ?thesis unfolding e
    by (auto simp: unmarked_state_def pushBlock_def dest: in_set_butlastD)
qed

lemma finish_unmarked: "unmarked_state st \<Longrightarrow> unmarked_state (finish S st)"
  by (simp add: finish_def unmarked_state_def pushBlock_def)

text \<open>An invariant of every operation, on pushing a node that satisfies \<open>Q\<close>, is an
  invariant of the traversal of a tree all of whose nodes satisfy \<open>Q\<close>.\<close>

lemma guarded_invariant_aux:
  assumes A: "\<And>st x d st'. I st \<Longrightarrow> addText (js_slice S (scanOffset st) x) d st = Some st' \<Longrightarrow> I st'"
    and P: "\<And>st n. I st \<Longrightarrow> plain n \<Longrightarrow> I (pushFrame n st)"
    and C: "\<And>st i st'. I st \<Longrightarrow> stack st \<noteq> [] \<Longrightarrow> closeFrame i st = Some st' \<Longrightarrow> I st'"
  shows "S' = S \<Longrightarrow> \<forall>n\<in>set ns. plain n \<Longrightarrow> I st \<Longrightarrow>
      getChildren_from S' ns i pe st = Some st' \<Longrightarrow> I st'"
    and "S' = S \<Longrightarrow> plain n \<Longrightarrow> I st \<Longrightarrow> visitNode S' n i st = Some st' \<Longrightarrow> I st'"
proof (induction S' ns i pe st and S' n i st arbitrary: st' and st'
    rule: getChildren_from_visitNode.induct)
  case (1 S' i parentEndOffset st)
  then show ?case using A by simp
next
  case (2 S' n ns i parentEndOffset st)
  from 2(6) obtain st1 where v: "visitNode S' n i st = Some st1"
    and r: "getChildren_from S' ns (Suc i) parentEndOffset st1 = Some st'"
    by (auto simp: bind_eq_Some_conv)
  have q: "plain n" "\<forall>m\<in>set ns. plain m" using 2(4) by simp_all
  show ?case using 2(2) [OF v 2(3) q(2) _ r] 2(1) [OF 2(3) q(1) 2(5) v] by blast
next
  case (3 S' n i st)
  note eq = \<open>S' = S\<close>
  show ?case
  proof (cases rule: visit_cases [of S n i st])
    case skip
    then show ?thesis using 3 by simp
  next
    case (visit so eo st1 st3 st'')
    have e: "st'' = st'" using visit(7) 3(5) eq by simp
    have I1: "I st1" using A [OF 3(4) visit(4)] .
    have I2: "I (pushFrame n st1)" using P [OF I1 3(3)] .
    have I3: "I st3"
    proof (cases n)
      case (Literal ty d s e)
      then show ?thesis using visit(5) A [OF I2] by (simp add: visitBody_def)
    next
      case (Parent ty d s e cs)
      have b: "getChildren_from S cs 0 eo (pushFrame n st1) = Some st3"
        using visit(5) Parent by (simp add: visitBody_def)
      have q: "\<forall>c\<in>set cs. plain c" using 3(3) Parent by simp
      show ?thesis
        using 3(1) [unfolded eq, OF visit(1) visit(2) refl not_le_clamp [OF visit(3)]
            bind_push [OF visit(4) [unfolded max_clamp]] Parent refl q I2 b] .
    qed
    have "stack st3 \<noteq> []" using visit(9) by auto
    then show ?thesis using C [OF I3 _ visit(6)] e by simp
  qed
qed

lemmas guarded_invariant = guarded_invariant_aux [OF _ _ _ refl]

lemma plain_render:
  assumes "\<forall>n\<in>set nodes. plain n" "editorRender S nodes = Some r"
  shows "unmarked r"
proof -
  from assms(2) obtain st where p: "getChildren_from S nodes 0 (length S) init_state = Some st"
    and r: "r = rootEl (finish S st)"
    by (auto simp: editorRender_def renderPass_def getChildren_def bind_eq_Some_conv)
  have A: "\<And>st x d st'. unmarked_state st \<Longrightarrow>
      addText (js_slice S (scanOffset st) x) d st = Some st' \<Longrightarrow> unmarked_state st'"
    by (rule addText_unmarked)
  have P: "\<And>st n. unmarked_state st \<Longrightarrow> plain n \<Longrightarrow> unmarked_state (pushFrame n st)"
    by (rule pushFrame_unmarked)
  have C: "\<And>st i st'. unmarked_state st \<Longrightarrow> stack st \<noteq> [] \<Longrightarrow> closeFrame i st = Some st' \<Longrightarrow>
      unmarked_state st'"
    by (rule closeFrame_unmarked)
  have I0: "unmarked_state init_state" by (simp add: unmarked_state_def init_state_def)
  have "unmarked_state st"
    by (rule guarded_invariant(1) [where I=unmarked_state, OF A P C assms(1) I0 p])
  then show ?thesis unfolding r using finish_unmarked [of st S] by (simp add: unmarked_state_def)
qed








inductive_cases repr_kids_NilE: "repr_kids h [] es"

inductive_cases repr_kids_TextE: "repr_kids h (DText s # ks) es"

inductive_cases repr_kids_RefE: "repr_kids h (DRef b # ks) es"

inductive_cases reprE: "repr h a e"

lemma repr_unique:
  shows "repr h a e \<Longrightarrow> repr h a e' \<Longrightarrow> e = e'"
    and "repr_kids h ks es \<Longrightarrow> repr_kids h ks es' \<Longrightarrow> es = es'"
proof (induction arbitrary: e' and es' rule: repr_repr_kids.inducts)
  case (repr_node a h ks)
  from repr_node.prems show ?case
    by (rule reprE) (use repr_node.IH in auto)
next
  case (repr_nil h)
  then show ?case by (auto elim: repr_kids_NilE)
next
  case (repr_text h ks es s)
  from repr_text.prems show ?case
    by (rule repr_kids_TextE) (use repr_text.IH in auto)
next
  case (repr_ref h b e ks es)
  from repr_ref.prems show ?case
    by (rule repr_kids_RefE) (use repr_ref.IH in auto)
qed

text \<open>A change of an object that nothing refers to leaves every other tree as it is.\<close>

lemma repr_frame:
  shows "repr h a e \<Longrightarrow> unref h p \<Longrightarrow> a \<noteq> p \<Longrightarrow> repr (h[p := c]) a e"
    and "repr_kids h ks es \<Longrightarrow> unref h p \<Longrightarrow> DRef p \<notin> set ks \<Longrightarrow> repr_kids (h[p := c]) ks es"
proof (induction rule: repr_repr_kids.inducts)
  case (repr_node a h ks)
  have "DRef p \<notin> set (ckids (h ! a))"
    using repr_node.prems(1) repr_node.hyps(1) by (auto simp: unref_def)
  then have k: "repr_kids (h[p := c]) (ckids (h ! a)) ks" using repr_node by simp
  have "(h[p := c]) ! a = h ! a" using repr_node.prems(2) by simp
  moreover have "a < length (h[p := c])" using repr_node.hyps(1) by simp
  ultimately show ?case
    using repr_repr_kids.repr_node [of a "h[p := c]" ks] k by simp
next
  case (repr_nil h)
  then show ?case by (simp add: repr_repr_kids.repr_nil)
next
  case (repr_text h ks es s)
  then show ?case by (simp add: repr_repr_kids.repr_text)
next
  case (repr_ref h b e ks es)
  then show ?case by (auto intro: repr_repr_kids.repr_ref)
qed

text \<open>A new object leaves every tree as it is.\<close>

lemma repr_alloc:
  shows "repr h a e \<Longrightarrow> repr (h @ [c]) a e"
    and "repr_kids h ks es \<Longrightarrow> repr_kids (h @ [c]) ks es"
proof (induction rule: repr_repr_kids.inducts)
  case (repr_node a h ks)
  have "(h @ [c]) ! a = h ! a" "a < length (h @ [c])"
    using repr_node.hyps(1) by (simp_all add: nth_append)
  then show ?case
    using repr_repr_kids.repr_node [of a "h @ [c]" ks] repr_node.IH by simp
qed (auto intro: repr_repr_kids.intros)

lemma repr_kids_snoc_aux:
  shows "repr h a e0 \<Longrightarrow> True"
    and "repr_kids h ks es \<Longrightarrow> repr_kids h [k] [e] \<Longrightarrow> repr_kids h (ks @ [k]) (es @ [e])"
  by (induction rule: repr_repr_kids.inducts) (auto intro: repr_repr_kids.intros)

lemmas repr_kids_snoc = repr_kids_snoc_aux(2)

lemma repr_kids_append_aux:
  shows "repr h a e0 \<Longrightarrow> True"
    and "repr_kids h ks es \<Longrightarrow> repr_kids h ks2 es2 \<Longrightarrow> repr_kids h (ks @ ks2) (es @ es2)"
  by (induction rule: repr_repr_kids.inducts) (auto intro: repr_repr_kids.intros)

lemmas repr_kids_append = repr_kids_append_aux(2)

lemma repr_modify:
  assumes "repr h a e" "unref h a" "ckids c = ckids (h ! a) @ ks2"
    "repr_kids (h[a := c]) ks2 es2"
  shows "repr (h[a := c]) a (Element (ctag c) (cclasses c) (cattrs c) (kids e @ es2))"
proof -
  from assms(1) have a: "a < length h" and k: "repr_kids h (ckids (h ! a)) (kids e)"
    by (auto elim: reprE)
  have "DRef a \<notin> set (ckids (h ! a))" using assms(2) a by (auto simp: unref_def)
  then have "repr_kids (h[a := c]) (ckids (h ! a)) (kids e)"
    using repr_frame(2) [OF k assms(2)] by simp
  then have "repr_kids (h[a := c]) (ckids c) (kids e @ es2)"
    unfolding assms(3) using assms(4) by (rule repr_kids_append)
  moreover have "(h[a := c]) ! a = c" "a < length (h[a := c])" using a by simp_all
  ultimately show ?thesis using repr_node [of a "h[a := c]" "kids e @ es2"] by simp
qed

lemma repr_fields:
  assumes "repr h a e"
  shows "tag e = ctag (h ! a)" "classes e = cclasses (h ! a)" "attrs e = cattrs (h ! a)"
    "a < length h"
  using assms by (auto elim: reprE)

lemma unref_update:
  assumes "unref h p" "a < length h" "DRef p \<notin> set (ckids c)"
  shows "unref (h[a := c]) p"
proof -
  have "set (h[a := c]) \<subseteq> insert c (set h)" by (rule set_update_subset_insert)
  then show ?thesis using assms by (auto simp: unref_def)
qed

lemma wf_update:
  assumes "wf_dom h" "\<forall>k\<in>set (ckids c). ref_ok (length h) k"
  shows "wf_dom (h[a := c])"
proof -
  have "set (h[a := c]) \<subseteq> insert c (set h)" by (rule set_update_subset_insert)
  then show ?thesis using assms by (auto simp: wf_dom_def)
qed

lemma wf_kids:
  "wf_dom h \<Longrightarrow> a < length h \<Longrightarrow> \<forall>k\<in>set (ckids (h ! a)). ref_ok (length h) k"
  by (auto simp: wf_dom_def)

text \<open>A change of the fields of an open object, or a text appended to it.\<close>

lemma cfg_modify:
  assumes "cfg h ps vs" "i < length ps"
    and c: "ckids c = ckids (h ! (ps ! i)) @ ks2" "\<forall>k\<in>set ks2. \<exists>s. k = DText s"
      "repr_kids (h[ps ! i := c]) ks2 es2"
    and v: "v = Element (ctag c) (cclasses c) (cattrs c) (kids (vs ! i) @ es2)"
  shows "cfg (h[ps ! i := c]) ps (vs[i := v])"
proof -
  let ?a = "ps ! i"
  from assms(1) have w: "wf_dom h" and d: "distinct ps" and l: "length ps = length vs"
    and o: "\<And>j. j < length ps \<Longrightarrow> ps ! j < length h \<and> unref h (ps ! j) \<and> repr h (ps ! j) (vs ! j)"
    by (simp_all add: cfg_def)
  have a: "?a < length h" "unref h ?a" "repr h ?a (vs ! i)" using o [OF assms(2)] by simp_all
  have nr: "\<And>p. DRef p \<in> set (ckids c) \<Longrightarrow> DRef p \<in> set (ckids (h ! ?a))"
    using c(1,2) by auto
  have w': "wf_dom (h[?a := c])"
  proof (rule wf_update [OF w], rule ballI)
    fix k assume "k \<in> set (ckids c)"
    then have "k \<in> set (ckids (h ! ?a)) \<or> k \<in> set ks2" using c(1) by simp
    then show "ref_ok (length h) k"
      using wf_kids [OF w a(1)] c(2) by auto
  qed
  have "\<forall>j<length ps. ps ! j < length (h[?a := c]) \<and> unref (h[?a := c]) (ps ! j)
      \<and> repr (h[?a := c]) (ps ! j) (vs[i := v] ! j)"
  proof (intro allI impI)
    fix j assume j: "j < length ps"
    have u: "unref (h[?a := c]) (ps ! j)"
    proof (rule unref_update [OF _ a(1)])
      show "unref h (ps ! j)" using o [OF j] by simp
      show "DRef (ps ! j) \<notin> set (ckids c)"
        using nr [of "ps ! j"] o [OF j] a(1) by (auto simp: unref_def)
    qed
    have r: "repr (h[?a := c]) (ps ! j) (vs[i := v] ! j)"
    proof (cases "j = i")
      case True
      then show ?thesis
        using repr_modify [OF a(3) a(2) c(1) c(3)] assms(2) l v by simp
    next
      case False
      then have "ps ! j \<noteq> ?a" using d j assms(2) by (simp add: nth_eq_iff_index_eq)
      then show ?thesis using repr_frame(1) [OF _ a(2)] o [OF j] False by simp
    qed
    show "ps ! j < length (h[?a := c]) \<and> unref (h[?a := c]) (ps ! j)
      \<and> repr (h[?a := c]) (ps ! j) (vs[i := v] ! j)"
      using o [OF j] u r by simp
  qed
  then show ?thesis using w' d l by (simp add: cfg_def)
qed

lemma cfg_classList_add:
  assumes "cfg h ps vs" "i < length ps"
  shows "cfg (classList_add_h x (ps ! i) h) ps (vs[i := classList_add x (vs ! i)])"
proof -
  have r: "repr h (ps ! i) (vs ! i)" and l: "length ps = length vs"
    using assms by (simp_all add: cfg_def)
  note f = repr_fields [OF r]
  show ?thesis
  proof (cases "x \<in> set (cclasses (h ! (ps ! i)))")
    case True
    then have "classList_add x (vs ! i) = vs ! i" using f by (simp add: classList_add_def)
    then show ?thesis using True assms(1) by (simp add: classList_add_h_def)
  next
    case False
    let ?c = "(h ! (ps ! i))\<lparr>cclasses := cclasses (h ! (ps ! i)) @ [x]\<rparr>"
    have "cfg (h[ps ! i := ?c]) ps (vs[i := classList_add x (vs ! i)])"
      by (rule cfg_modify [OF assms, where ?ks2.0 = "[]" and ?es2.0 = "[]"])
        (use False f in \<open>simp_all add: classList_add_def repr_nil\<close>)
    then show ?thesis using False by (simp add: classList_add_h_def)
  qed
qed

lemma cfg_setAttribute:
  assumes "cfg h ps vs" "i < length ps"
  shows "cfg (setAttribute_h k v (ps ! i) h) ps (vs[i := setAttribute k v (vs ! i)])"
proof -
  have r: "repr h (ps ! i) (vs ! i)" using assms by (simp add: cfg_def)
  note f = repr_fields [OF r]
  show ?thesis unfolding setAttribute_h_def
    by (rule cfg_modify [OF assms, where ?ks2.0 = "[]" and ?es2.0 = "[]"])
      (use f in \<open>simp_all add: setAttribute_def repr_nil\<close>)
qed

lemma cfg_append_text:
  assumes "cfg h ps vs" "i < length ps"
  shows "cfg (append_h (DText s) (ps ! i) h) ps (vs[i := append_child (TextNode s) (vs ! i)])"
proof -
  have r: "repr h (ps ! i) (vs ! i)" using assms by (simp add: cfg_def)
  note f = repr_fields [OF r]
  show ?thesis unfolding append_h_def
    by (rule cfg_modify [OF assms, where ?ks2.0 = "[DText s]" and ?es2.0 = "[TextNode s]"])
      (use f in \<open>auto simp: append_child_def intro: repr_repr_kids.intros\<close>)
qed

lemma unref_alloc:
  assumes "wf_dom h" "p \<le> length h" "p < length h \<Longrightarrow> unref h p"
  shows "unref (alloc t h) p"
proof (cases "p < length h")
  case True
  then show ?thesis using assms(3) by (simp add: unref_def alloc_def)
next
  case False
  then have "p = length h" using assms(2) by simp
  then show ?thesis using assms(1) by (fastforce simp: unref_def alloc_def wf_dom_def)
qed

lemma wf_alloc: "wf_dom h \<Longrightarrow> wf_dom (alloc t h)"
proof -
  assume w: "wf_dom h"
  have "\<And>n k. ref_ok n k \<Longrightarrow> ref_ok (Suc n) k" by (case_tac k) simp_all
  then show ?thesis using w by (auto simp: wf_dom_def alloc_def)
qed

lemma repr_new: "repr (alloc t h) (length h) (createElement t)"
  using repr_node [of "length h" "alloc t h" "[]"]
  by (simp add: alloc_def createElement_def repr_nil)

text \<open>A new object joins the open ones.\<close>

lemma cfg_alloc:
  assumes "cfg h ps vs"
  shows "cfg (alloc t h) (ps @ [length h]) (vs @ [createElement t])"
proof -
  from assms have w: "wf_dom h" and d: "distinct ps" and l: "length ps = length vs"
    and o: "\<And>j. j < length ps \<Longrightarrow> ps ! j < length h \<and> unref h (ps ! j) \<and> repr h (ps ! j) (vs ! j)"
    by (simp_all add: cfg_def)
  have n: "length h \<notin> set ps"
  proof
    assume "length h \<in> set ps"
    then obtain m where "m < length ps" "ps ! m = length h" by (auto simp: in_set_conv_nth)
    then show False using o [of m] by simp
  qed
  have "\<forall>j<length (ps @ [length h]). (ps @ [length h]) ! j < length (alloc t h)
      \<and> unref (alloc t h) ((ps @ [length h]) ! j)
      \<and> repr (alloc t h) ((ps @ [length h]) ! j) ((vs @ [createElement t]) ! j)"
  proof (intro allI impI)
    fix j assume j: "j < length (ps @ [length h])"
    show "(ps @ [length h]) ! j < length (alloc t h)
      \<and> unref (alloc t h) ((ps @ [length h]) ! j)
      \<and> repr (alloc t h) ((ps @ [length h]) ! j) ((vs @ [createElement t]) ! j)"
    proof (cases "j < length ps")
      case True
      have "repr (alloc t h) (ps ! j) (vs ! j)"
        unfolding alloc_def using o [OF True] by (simp add: repr_alloc(1))
      moreover have "unref (alloc t h) (ps ! j)"
        using unref_alloc [OF w] o [OF True] by simp
      ultimately show ?thesis using True o [OF True] l by (simp add: nth_append alloc_def)
    next
      case False
      then have e: "j = length ps" using j by simp
      have "unref (alloc t h) (length h)" using unref_alloc [OF w, of "length h"] by simp
      then show ?thesis using e l repr_new [of t h] by (simp add: nth_append alloc_def)
    qed
  qed
  then show ?thesis using wf_alloc [OF w] d l n by (simp add: cfg_def)
qed

text \<open>Fewer open objects.\<close>

lemma cfg_take: "cfg h ps vs \<Longrightarrow> cfg h (take n ps) (take n vs)"
  by (simp add: cfg_def)

lemma cfg_butlast: "cfg h ps vs \<Longrightarrow> cfg h (butlast ps) (butlast vs)"
  using cfg_take [of h ps vs "length ps - 1"] by (simp add: butlast_conv_take cfg_def)

text \<open>The open object \<open>i\<close> is appended to the open object \<open>j\<close>: the others stay open.\<close>

lemma adopt_core:
  assumes "cfg h ps vs" "i < length ps" "j < length ps" "i \<noteq> j"
  shows "wf_dom (append_h (DRef (ps ! i)) (ps ! j) h)"
    and "\<And>k. k < length ps \<Longrightarrow> k \<noteq> i \<Longrightarrow>
      ps ! k < length (append_h (DRef (ps ! i)) (ps ! j) h)
      \<and> unref (append_h (DRef (ps ! i)) (ps ! j) h) (ps ! k)
      \<and> repr (append_h (DRef (ps ! i)) (ps ! j) h) (ps ! k)
          ((vs[j := append_child (ElemNode (vs ! i)) (vs ! j)]) ! k)"
proof -
  let ?a = "ps ! j" and ?b = "ps ! i"
  let ?c = "(h ! ?a)\<lparr>ckids := ckids (h ! ?a) @ [DRef ?b]\<rparr>"
  have e: "append_h (DRef ?b) ?a h = h[?a := ?c]" by (simp add: append_h_def)
  from assms(1) have w: "wf_dom h" and d: "distinct ps" and l: "length ps = length vs"
    and o: "\<And>j. j < length ps \<Longrightarrow> ps ! j < length h \<and> unref h (ps ! j) \<and> repr h (ps ! j) (vs ! j)"
    by (simp_all add: cfg_def)
  have ne: "?b \<noteq> ?a" using d assms(2,3,4) by (simp add: nth_eq_iff_index_eq)
  show "wf_dom (append_h (DRef ?b) ?a h)"
    unfolding e using wf_kids [OF w] o [OF assms(3)] o [OF assms(2)]
    by (intro wf_update [OF w]) auto
  fix k assume k: "k < length ps" and ki: "k \<noteq> i"
  have nk: "ps ! k \<noteq> ?b" using d k assms(2) ki by (simp add: nth_eq_iff_index_eq)
  have u: "unref (h[?a := ?c]) (ps ! k)"
  proof (rule unref_update)
    show "unref h (ps ! k)" using o [OF k] by simp
    show "?a < length h" using o [OF assms(3)] by simp
    show "DRef (ps ! k) \<notin> set (ckids ?c)"
      using o [OF k] o [OF assms(3)] nk by (auto simp: unref_def)
  qed
  have r: "repr (h[?a := ?c]) (ps ! k) ((vs[j := append_child (ElemNode (vs ! i)) (vs ! j)]) ! k)"
  proof (cases "k = j")
    case True
    have b: "repr (h[?a := ?c]) ?b (vs ! i)"
      using repr_frame(1) [OF _ _ ne] o [OF assms(2)] o [OF assms(3)] by simp
    have "repr_kids (h[?a := ?c]) [DRef ?b] [ElemNode (vs ! i)]"
      by (rule repr_ref [OF b repr_nil])
    then have "repr (h[?a := ?c]) ?a (Element (ctag ?c) (cclasses ?c) (cattrs ?c)
        (kids (vs ! j) @ [ElemNode (vs ! i)]))"
      using o [OF assms(3)] by (intro repr_modify) simp_all
    moreover have "append_child (ElemNode (vs ! i)) (vs ! j)
        = Element (ctag ?c) (cclasses ?c) (cattrs ?c) (kids (vs ! j) @ [ElemNode (vs ! i)])"
      using repr_fields [of h ?a "vs ! j"] o [OF assms(3)] by (simp add: append_child_def)
    ultimately show ?thesis using True assms(3) l by simp
  next
    case False
    then have na: "ps ! k \<noteq> ?a" using d k assms(3) by (simp add: nth_eq_iff_index_eq)
    show ?thesis
      using repr_frame(1) [OF _ _ na] o [OF k] o [OF assms(3)] False by simp
  qed
  show "ps ! k < length (append_h (DRef ?b) ?a h)
      \<and> unref (append_h (DRef ?b) ?a h) (ps ! k)
      \<and> repr (append_h (DRef ?b) ?a h) (ps ! k)
          ((vs[j := append_child (ElemNode (vs ! i)) (vs ! j)]) ! k)"
    unfolding e using o [OF k] u r by simp
qed

text \<open>\<dots> and a new object takes its place among the open ones.\<close>

lemma cfg_close:
  assumes "cfg h ps vs" "i < length ps" "j < length ps" "i \<noteq> j"
  shows "cfg (alloc t (append_h (DRef (ps ! i)) (ps ! j) h)) (ps[i := length h])
      ((vs[j := append_child (ElemNode (vs ! i)) (vs ! j)])[i := createElement t])"
proof -
  let ?h1 = "append_h (DRef (ps ! i)) (ps ! j) h"
  let ?vs1 = "vs[j := append_child (ElemNode (vs ! i)) (vs ! j)]"
  note c = adopt_core [OF assms]
  from assms(1) have d: "distinct ps" and l: "length ps = length vs"
    and o: "\<And>j. j < length ps \<Longrightarrow> ps ! j < length h"
    by (simp_all add: cfg_def)
  have l1: "length ?h1 = length h" by (simp add: append_h_def)
  have n: "length h \<notin> set ps"
  proof
    assume "length h \<in> set ps"
    then obtain m where "m < length ps" "ps ! m = length h" by (auto simp: in_set_conv_nth)
    then show False using o [of m] by simp
  qed
  have d': "distinct (ps[i := length h])"
    using d n assms(2) by (simp add: distinct_list_update)
  have "\<forall>k<length (ps[i := length h]). (ps[i := length h]) ! k < length (alloc t ?h1)
      \<and> unref (alloc t ?h1) ((ps[i := length h]) ! k)
      \<and> repr (alloc t ?h1) ((ps[i := length h]) ! k) ((?vs1[i := createElement t]) ! k)"
  proof (intro allI impI)
    fix k assume "k < length (ps[i := length h])"
    then have k: "k < length ps" by simp
    show "(ps[i := length h]) ! k < length (alloc t ?h1)
      \<and> unref (alloc t ?h1) ((ps[i := length h]) ! k)
      \<and> repr (alloc t ?h1) ((ps[i := length h]) ! k) ((?vs1[i := createElement t]) ! k)"
    proof (cases "k = i")
      case True
      have "unref (alloc t ?h1) (length ?h1)" using unref_alloc [OF c(1), of "length ?h1"] by simp
      then show ?thesis using True k l l1 repr_new [of t ?h1] by (simp add: alloc_def)
    next
      case False
      note ck = c(2) [OF k False]
      have "repr (alloc t ?h1) (ps ! k) (?vs1 ! k)"
        unfolding alloc_def using ck by (simp add: repr_alloc(1))
      moreover have "unref (alloc t ?h1) (ps ! k)"
        using unref_alloc [OF c(1)] ck by simp
      ultimately show ?thesis using False k ck by (simp add: alloc_def)
    qed
  qed
  then show ?thesis using wf_alloc [OF c(1)] d' l by (simp add: cfg_def)
qed

text \<open>The last open object is appended to the open object \<open>j\<close> and is open no more.\<close>

lemma cfg_adopt_last:
  assumes "cfg h (ps @ [a]) (vs @ [v])" "j < length ps" "length ps = length vs"
  shows "cfg (append_h (DRef a) (ps ! j) h) ps (vs[j := append_child (ElemNode v) (vs ! j)])"
proof -
  have i: "length ps < length (ps @ [a])" "j < length (ps @ [a])" "length ps \<noteq> j"
    using assms(2) by simp_all
  note c = adopt_core [OF assms(1) i]
  have n: "(ps @ [a]) ! length ps = a" "(ps @ [a]) ! j = ps ! j"
    "(vs @ [v]) ! length ps = v" "(vs @ [v]) ! j = vs ! j"
    using assms(2,3) by (simp_all add: nth_append)
  have d: "distinct ps" using assms(1) by (simp add: cfg_def)
  have "\<forall>k<length ps. ps ! k < length (append_h (DRef a) (ps ! j) h)
      \<and> unref (append_h (DRef a) (ps ! j) h) (ps ! k)
      \<and> repr (append_h (DRef a) (ps ! j) h) (ps ! k)
          ((vs[j := append_child (ElemNode v) (vs ! j)]) ! k)"
  proof (intro allI impI)
    fix k assume k: "k < length ps"
    then have "k < length (ps @ [a])" "k \<noteq> length ps" by simp_all
    from c(2) [OF this] show "ps ! k < length (append_h (DRef a) (ps ! j) h)
      \<and> unref (append_h (DRef a) (ps ! j) h) (ps ! k)
      \<and> repr (append_h (DRef a) (ps ! j) h) (ps ! k)
          ((vs[j := append_child (ElemNode v) (vs ! j)]) ! k)"
      unfolding n using k assms(2,3)
      by (simp add: nth_append list_update_append nth_list_update)
  qed
  then show ?thesis using c(1) d assms(3) unfolding n by (simp add: cfg_def)
qed

lemma sim_length: "sim hs st \<Longrightarrow> length (stack_h hs) = length (stack st)"
  by (metis sim_def length_map)

lemma sim_nth:
  assumes "sim hs st" "k < length (stack st)"
  shows "node_h (stack_h hs ! k) = node (stack st ! k)"
    and "first_h (stack_h hs ! k) = first (stack st ! k)"
proof -
  have l: "k < length (stack_h hs)" using sim_length [OF assms(1)] assms(2) by simp
  have "map node_h (stack_h hs) ! k = map node (stack st) ! k"
    "map first_h (stack_h hs) ! k = map first (stack st) ! k"
    using assms(1) by (simp_all add: sim_def)
  then show "node_h (stack_h hs ! k) = node (stack st ! k)"
    and "first_h (stack_h hs ! k) = first (stack st ! k)"
    using l assms(2) by simp_all
qed

lemma length_classList_add_h [simp]: "length (classList_add_h c a h) = length h"
  by (simp add: classList_add_h_def)

lemma length_append_h [simp]: "length (append_h k a h) = length h"
  by (simp add: append_h_def)

lemma length_setAttribute_h [simp]: "length (setAttribute_h k v a h) = length h"
  by (simp add: setAttribute_h_def)

lemma length_addStyle_h [simp]: "length (addStyle_h n a b p h) = length h"
  by (simp add: addStyle_h_def Let_def)

lemma length_alloc [simp]: "length (alloc t h) = Suc (length h)"
  by (simp add: alloc_def)

lemma cfg_length: "cfg h ps vs \<Longrightarrow> length vs = length ps"
  by (simp add: cfg_def)

lemma cfg_addStyle:
  assumes "cfg h ps vs" "i < length ps"
  shows "cfg (addStyle_h n a b (ps ! i) h) ps (vs[i := addStyle n a b (vs ! i)])"
proof -
  have l: "i < length vs" using assms by (simp add: cfg_def)
  have c: "\<And>h vs x. cfg h ps vs \<Longrightarrow>
      cfg (classList_add_h x (ps ! i) h) ps (vs[i := classList_add x (vs ! i)])"
    using cfg_classList_add assms(2) by blast
  have c2: "\<And>h vs x y. cfg h ps vs \<Longrightarrow> i < length vs \<Longrightarrow>
      cfg (classList_add_h y (ps ! i) (classList_add_h x (ps ! i) h)) ps
        (vs[i := classList_add y (classList_add x (vs ! i))])"
  proof -
    fix h vs x y assume a: "cfg h ps vs" "i < length vs"
    from c [OF c [OF a(1)], of y x] a(2) show
      "cfg (classList_add_h y (ps ! i) (classList_add_h x (ps ! i) h)) ps
        (vs[i := classList_add y (classList_add x (vs ! i))])" by simp
  qed
  have c3: "\<And>h vs x y z. cfg h ps vs \<Longrightarrow> i < length vs \<Longrightarrow>
      cfg (classList_add_h z (ps ! i) (classList_add_h y (ps ! i) (classList_add_h x (ps ! i) h))) ps
        (vs[i := classList_add z (classList_add y (classList_add x (vs ! i)))])"
  proof -
    fix h vs x y z assume a: "cfg h ps vs" "i < length vs"
    from c [OF c2 [OF a], of z y x] a(2) show
      "cfg (classList_add_h z (ps ! i) (classList_add_h y (ps ! i) (classList_add_h x (ps ! i) h))) ps
        (vs[i := classList_add z (classList_add y (classList_add x (vs ! i)))])" by simp
  qed
  show ?thesis
    using c [OF assms(1)] c2 [OF assms(1) l] c3 [OF assms(1) l]
    by (simp add: addStyle_h_def addStyle_def Let_def)
qed

lemma map_el_map_el [simp]:
  "k < length stk \<Longrightarrow> map el (map_el k g stk) = (map el stk)[k := g (el (stk ! k))]"
  by (simp add: map_el_def map_update)

lemma map_update_same [simp]: "(map f xs)[k := f (xs ! k)] = map f xs"
  by (cases "k < length xs") (simp_all add: list_update_same_conv list_update_beyond)

lemma map_first_map_el [simp]: "map first (map_el k g stk) = map first stk"
  by (simp add: map_el_def map_update)

lemma styleIndex_less: "index < length stk \<Longrightarrow> styleIndex stk index < length stk"
  by (cases stk) (auto simp: styleIndex_def)

text \<open>\<open>pushElement\<close> over values, as a change of the list of open trees.\<close>

lemma vals_pushElement:
  assumes "index < length (stack st)"
  shows "\<exists>st'. pushElement index l st = Some st'
    \<and> vals st' =
        (((vals st)[2 + styleIndex (stack st) index :=
            addStyle (node (stack st ! index)) (first (stack st ! index)) l
              (vals st ! (2 + styleIndex (stack st) index))])
          [(if index \<noteq> 0 then Suc index else 1) :=
            append_child
              (ElemNode (((vals st)[2 + styleIndex (stack st) index :=
                 addStyle (node (stack st ! index)) (first (stack st ! index)) l
                   (vals st ! (2 + styleIndex (stack st) index))]) ! (2 + index)))
              (((vals st)[2 + styleIndex (stack st) index :=
                 addStyle (node (stack st ! index)) (first (stack st ! index)) l
                   (vals st ! (2 + styleIndex (stack st) index))])
                ! (if index \<noteq> 0 then Suc index else 1))])
          [2 + index := createElement (if index \<noteq> 0 then ''span'' else ''div'')]
    \<and> map node (stack st') = map node (stack st)
    \<and> map first (stack st') = (map first (stack st))[index := False]
    \<and> scanOffset st' = scanOffset st"
proof (cases "index = 0")
  case True
  have k: "styleIndex (stack st) 0 = 0" by (simp add: styleIndex_def)
  show ?thesis using assms True
    by (simp add: pushElement_outer styled_def k vals_def map_update map_el_def)
next
  case False
  then obtain m where m: "index = Suc m" by (cases index) auto
  have sl: "styleIndex (stack st) index < length (stack st)"
    using styleIndex_less [OF assms] .
  have sk: "styleIndex (stack st) index = index \<or> styleIndex (stack st) index = 0"
    by (simp add: styleIndex_def)
  let ?st' = "st\<lparr>stack :=
       (map_el (index - 1) (append_child (ElemNode (el (styled index l (stack st) ! index))))
          (styled index l (stack st)))
       [index := (styled index l (stack st) ! index)\<lparr>el := createElement ''span'', first := False\<rparr>]\<rparr>"
  have p: "pushElement index l st = Some ?st'"
    using assms False by (simp add: pushElement_inner)
  have f: "map first (stack ?st') = (map first (stack st))[index := False]"
    using assms by (simp add: styled_def map_update)
  have n: "map node (stack ?st') = map node (stack st)"
    using assms by (simp add: styled_def map_update)
  have v: "vals ?st' =
        (((vals st)[2 + styleIndex (stack st) index :=
            addStyle (node (stack st ! index)) (first (stack st ! index)) l
              (vals st ! (2 + styleIndex (stack st) index))])
          [(if index \<noteq> 0 then Suc index else 1) :=
            append_child
              (ElemNode (((vals st)[2 + styleIndex (stack st) index :=
                 addStyle (node (stack st ! index)) (first (stack st ! index)) l
                   (vals st ! (2 + styleIndex (stack st) index))]) ! (2 + index)))
              (((vals st)[2 + styleIndex (stack st) index :=
                 addStyle (node (stack st ! index)) (first (stack st ! index)) l
                   (vals st ! (2 + styleIndex (stack st) index))])
                ! (if index \<noteq> 0 then Suc index else 1))])
          [2 + index := createElement (if index \<noteq> 0 then ''span'' else ''div'')]"
    using assms sl sk m
    by (auto simp: styled_def vals_def map_update map_el_def nth_list_update)
  show ?thesis using p f n v by simp
qed

lemma sim_cfg: "sim hs st \<Longrightarrow> cfg (dom_h hs) (opens hs) (vals st)"
  by (simp add: sim_def)

lemma opens_nth:
  "opens hs ! 0 = rootEl_h hs" "opens hs ! 1 = block_h hs" "opens hs ! Suc 0 = block_h hs"
  "k < length (stack_h hs) \<Longrightarrow> opens hs ! (2 + k) = el_h (stack_h hs ! k)"
  "k < length (stack_h hs) \<Longrightarrow> opens hs ! Suc (Suc k) = el_h (stack_h hs ! k)"
  "length (opens hs) = 2 + length (stack_h hs)"
  by (simp_all add: opens_def)

lemma sim_pushElement:
  assumes "sim hs st"
  shows "rel_option sim (pushElement_h index l hs) (pushElement index l st)"
proof (cases "index < length (stack st)")
  case False
  then show ?thesis using sim_length [OF assms]
    by (simp add: pushElement_h_def pushElement_None)
next
  case True
  note len = sim_length [OF assms]
  have ih: "index < length (stack_h hs)" using True len by simp
  let ?k = "styleIndex (stack st) index"
  let ?n = "node (stack st ! index)" and ?f = "first (stack st ! index)"
  let ?j = "if index \<noteq> 0 then Suc index else 1"
  let ?t = "if index \<noteq> 0 then ''span'' else ''div''"
  let ?vs1 = "(vals st)[2 + ?k := addStyle ?n ?f l (vals st ! (2 + ?k))]"
  from vals_pushElement [OF True, of l] obtain st' where
    p: "pushElement index l st = Some st'"
    and v: "vals st' = (?vs1[?j := append_child (ElemNode (?vs1 ! (2 + index))) (?vs1 ! ?j)])
          [2 + index := createElement ?t]"
    and n: "map node (stack st') = map node (stack st)"
    and f: "map first (stack st') = (map first (stack st))[index := False]"
    and sc: "scanOffset st' = scanOffset st"
    by blast
  have kl: "?k < length (stack_h hs)" using styleIndex_less [OF True] len by simp
  have ke: "(if index \<noteq> 0 \<and> \<not> isFlowContent (node_h (stack_h hs ! (index - 1)))
             then index else 0) = ?k"
    using sim_nth(1) [OF assms, of "index - 1"] True by (auto simp: styleIndex_def)
  let ?h1 = "addStyle_h ?n ?f l (opens hs ! (2 + ?k)) (dom_h hs)"
  have c1: "cfg ?h1 (opens hs) ?vs1"
    by (rule cfg_addStyle [OF sim_cfg [OF assms]]) (use kl in \<open>simp add: opens_nth\<close>)
  have c2: "cfg (alloc ?t (append_h (DRef (opens hs ! (2 + index))) (opens hs ! ?j) ?h1))
      ((opens hs)[2 + index := length ?h1])
      ((?vs1[?j := append_child (ElemNode (?vs1 ! (2 + index))) (?vs1 ! ?j)])
          [2 + index := createElement ?t])"
    by (rule cfg_close [OF c1]) (use ih in \<open>auto simp: opens_nth\<close>)
  have pj: "opens hs ! ?j = (if index \<noteq> 0 then el_h (stack_h hs ! (index - 1)) else block_h hs)"
    using ih by (cases index) (simp_all add: opens_def)
  let ?hs' = "hs\<lparr>stack_h := (stack_h hs)[index := (stack_h hs ! index)
                     \<lparr>el_h := length (dom_h hs), first_h := False\<rparr>],
                   dom_h := alloc ?t (append_h (DRef (opens hs ! (2 + index))) (opens hs ! ?j) ?h1)\<rparr>"
  have ph: "pushElement_h index l hs = Some ?hs'"
    using ih kl sim_nth [OF assms True] pj
    by (simp add: pushElement_h_def Let_def ke [symmetric] opens_nth)
  have o': "opens ?hs' = (opens hs)[2 + index := length ?h1]"
    by (simp add: opens_def map_update)
  have "sim ?hs' st'"
    unfolding sim_def o' v using c2 n f sc assms sim_nth [OF assms True]
    by (simp add: sim_def map_update)
  then show ?thesis using p ph by simp
qed

lemma rel_option_bind:
  assumes "rel_option R x y" "\<And>a b. R a b \<Longrightarrow> rel_option Q (f a) (g b)"
  shows "rel_option Q (x \<bind> f) (y \<bind> g)"
  using assms by (cases x; cases y) simp_all

lemma vals_map_el:
  "k < length (stack st) \<Longrightarrow>
   vals (st\<lparr>stack := map_el k g (stack st)\<rparr>) = (vals st)[2 + k := g (vals st ! (2 + k))]"
  by (simp add: vals_def)

lemma sim_fields:
  assumes "sim hs st"
  shows "scanOffset_h hs = scanOffset st" "length (stack_h hs) = length (stack st)"
    "stack_h hs = [] \<longleftrightarrow> stack st = []"
  using assms sim_length [OF assms] by (auto simp: sim_def)

lemma sim_scanOffset:
  "sim hs st \<Longrightarrow> sim (hs\<lparr>scanOffset_h := scanOffset_h hs + k\<rparr>) (st\<lparr>scanOffset := scanOffset st + k\<rparr>)"
  by (simp add: sim_def opens_def vals_def)

lemma sim_pushBlock:
  assumes "sim hs st"
  shows "sim (pushBlock_h hs) (pushBlock st)"
proof -
  let ?b = "classNamePrefix @ ''block''"
  let ?vs1 = "(vals st)[1 := classList_add ?b (vals st ! 1)]"
  let ?h1 = "classList_add_h ?b (opens hs ! 1) (dom_h hs)"
  have c1: "cfg ?h1 (opens hs) ?vs1"
    by (rule cfg_classList_add [OF sim_cfg [OF assms]]) (simp add: opens_def)
  have c2: "cfg (alloc ''div'' (append_h (DRef (opens hs ! 1)) (opens hs ! 0) ?h1))
      ((opens hs)[1 := length ?h1])
      ((?vs1[0 := append_child (ElemNode (?vs1 ! 1)) (?vs1 ! 0)])[1 := createElement ''div''])"
    by (rule cfg_close [OF c1]) (simp_all add: opens_def)
  have o: "opens (pushBlock_h hs) = (opens hs)[1 := length ?h1]"
    by (simp add: pushBlock_h_def Let_def opens_def)
  have v: "vals (pushBlock st)
      = (?vs1[0 := append_child (ElemNode (?vs1 ! 1)) (?vs1 ! 0)])[1 := createElement ''div'']"
    by (simp add: pushBlock_def vals_def)
  have d: "dom_h (pushBlock_h hs) = alloc ''div'' (append_h (DRef (opens hs ! 1)) (opens hs ! 0) ?h1)"
    by (simp add: pushBlock_h_def Let_def opens_def)
  show ?thesis unfolding sim_def o v d using c2 assms
    by (simp add: sim_def pushBlock_h_def pushBlock_def Let_def)
qed

lemma sim_appendText:
  assumes "sim hs st"
  shows "rel_option sim (appendToFrame_h k (DText s) hs) (appendToFrame k (TextNode s) st)"
proof (cases "k < length (stack st)")
  case False
  then show ?thesis using sim_length [OF assms]
    by (simp add: appendToFrame_h_def appendToFrame_def)
next
  case True
  then have kh: "k < length (stack_h hs)" using sim_length [OF assms] by simp
  have "cfg (append_h (DText s) (opens hs ! (2 + k)) (dom_h hs)) (opens hs)
      ((vals st)[2 + k := append_child (TextNode s) (vals st ! (2 + k))])"
    by (rule cfg_append_text [OF sim_cfg [OF assms]]) (use kh in \<open>simp add: opens_def\<close>)
  then have "sim (hs\<lparr>dom_h := append_h (DText s) (el_h (stack_h hs ! k)) (dom_h hs)\<rparr>)
      (st\<lparr>stack := map_el k (append_child (TextNode s)) (stack st)\<rparr>)"
    using assms kh True unfolding sim_def vals_map_el [OF True]
    by (simp add: opens_def)
  then show ?thesis using True kh by (simp add: appendToFrame_h_def appendToFrame_def)
qed

text \<open>A new object that holds one text, with classes of its own, is appended to the
  open object \<open>j\<close>.\<close>

lemma cfg_append_new:
  assumes "cfg h ps vs" "j < length ps"
  shows "cfg (append_h (DRef (length h)) (ps ! j)
            (classList_add_h x (length h) (append_h (DText s) (length h) (alloc t h)))) ps
          (vs[j := append_child (ElemNode (classList_add x
              (append_child (TextNode s) (createElement t)))) (vs ! j)])"
    and "cfg (append_h (DRef (length h)) (ps ! j)
            (append_h (DText s) (length h) (alloc t h))) ps
          (vs[j := append_child (ElemNode (append_child (TextNode s) (createElement t))) (vs ! j)])"
proof -
  have l: "length ps = length vs" using assms(1) by (simp add: cfg_def)
  let ?ps = "ps @ [length h]"
  have n: "?ps ! length ps = length h" "length ps < length ?ps" by simp_all
  have c0: "cfg (alloc t h) ?ps (vs @ [createElement t])" by (rule cfg_alloc [OF assms(1)])
  have c1: "cfg (append_h (DText s) (length h) (alloc t h)) ?ps
      (vs @ [append_child (TextNode s) (createElement t)])"
    using cfg_append_text [OF c0 n(2), of s] l by (simp add: nth_append)
  have c2: "cfg (classList_add_h x (length h) (append_h (DText s) (length h) (alloc t h))) ?ps
      (vs @ [classList_add x (append_child (TextNode s) (createElement t))])"
    using cfg_classList_add [OF c1 n(2), of x] l by (simp add: nth_append)
  show "cfg (append_h (DRef (length h)) (ps ! j)
            (classList_add_h x (length h) (append_h (DText s) (length h) (alloc t h)))) ps
          (vs[j := append_child (ElemNode (classList_add x
              (append_child (TextNode s) (createElement t)))) (vs ! j)])"
    by (rule cfg_adopt_last [OF c2 assms(2) l])
  show "cfg (append_h (DRef (length h)) (ps ! j)
            (append_h (DText s) (length h) (alloc t h))) ps
          (vs[j := append_child (ElemNode (append_child (TextNode s) (createElement t))) (vs ! j)])"
    by (rule cfg_adopt_last [OF c1 assms(2) l])
qed

lemma sim_appendLine:
  assumes "sim hs st"
  shows "rel_option sim (appendLine_h l d hs) (appendLine l d st)"
proof (cases "l = []")
  case True
  then show ?thesis using assms by (simp add: appendLine_h_def appendLine_def)
next
  case False
  note l = False
  show ?thesis
  proof (cases d)
    case False
    then show ?thesis using l sim_appendText [OF assms] sim_length [OF assms]
      by (simp add: appendLine_h_def appendLine_def)
  next
    case True
    let ?k = "length (stack st) - 1"
    show ?thesis
    proof (cases "?k < length (stack st)")
      case False
      then have "stack st = []" by (cases "stack st") simp_all
      then show ?thesis using True l sim_length [OF assms]
        by (simp add: appendLine_h_def appendLine_def appendToFrame_h_def appendToFrame_def
            createDelimiter_h_def)
    next
      case k: True
      then have kh: "?k < length (stack_h hs)" using sim_length [OF assms] by simp
      let ?x = "classNamePrefix @ ''delimiter''"
      let ?h' = "append_h (DRef (length (dom_h hs))) (opens hs ! (2 + ?k))
            (classList_add_h ?x (length (dom_h hs))
              (append_h (DText l) (length (dom_h hs)) (alloc ''span'' (dom_h hs))))"
      have "cfg ?h' (opens hs)
          ((vals st)[2 + ?k := append_child (ElemNode (createDelimiter l)) (vals st ! (2 + ?k))])"
        unfolding createDelimiter_def
        by (rule cfg_append_new(1) [OF sim_cfg [OF assms]]) (use kh in \<open>simp add: opens_def\<close>)
      then have "sim (hs\<lparr>dom_h := ?h'\<rparr>)
          (st\<lparr>stack := map_el ?k (append_child (ElemNode (createDelimiter l))) (stack st)\<rparr>)"
        using assms kh k unfolding sim_def vals_map_el [OF k]
        by (simp add: opens_def)
      then show ?thesis using True l k kh sim_length [OF assms]
        by (simp add: appendLine_h_def appendLine_def appendToFrame_h_def appendToFrame_def
            createDelimiter_h_def opens_def)
    qed
  qed
qed

lemma sim_flushFrames:
  "sim hs st \<Longrightarrow> rel_option sim (flushFrames_h j hs) (flushFrames j st)"
proof (induction j arbitrary: hs st)
  case 0
  then show ?case by simp
next
  case (Suc j)
  show ?case unfolding flushFrames_h.simps flushFrames.simps
    by (rule rel_option_bind [OF sim_pushElement [OF Suc.prems]]) (rule Suc.IH)
qed

lemma sim_breakLine:
  assumes "sim hs st"
  shows "rel_option sim (breakLine_h hs) (breakLine st)"
proof -
  have 1: "rel_option sim (flushFrames_h (length (stack st) - 1) hs \<bind> appendToFrame_h 0 (DText [ZWSP]))
      (flushFrames (length (stack st) - 1) st \<bind> appendToFrame 0 (TextNode [ZWSP]))"
    by (rule rel_option_bind [OF sim_flushFrames [OF assms]]) (rule sim_appendText)
  show ?thesis unfolding breakLine_h_def breakLine_def sim_fields(2) [OF assms]
    by (rule rel_option_bind [OF 1]) (rule sim_pushElement)
qed

lemma sim_addLines:
  "sim hs st \<Longrightarrow> rel_option sim (addLines_h ls d hs) (addLines ls d st)"
proof (induction ls arbitrary: hs st)
  case Nil
  then show ?case by simp
next
  case (Cons l ls)
  have 1: "rel_option sim (breakLine_h hs \<bind> appendLine_h l d) (breakLine st \<bind> appendLine l d)"
    by (rule rel_option_bind [OF sim_breakLine [OF Cons.prems]]) (rule sim_appendLine)
  show ?case unfolding addLines_h.simps addLines.simps
    by (rule rel_option_bind [OF 1]) (rule Cons.IH)
qed

lemma sim_createLine_block:
  assumes "sim hs st"
  shows "sim (case createLine_h l (dom_h hs) of
            (a, h1) \<Rightarrow> hs\<lparr>dom_h := append_h (DRef a) (block_h hs) h1\<rparr>)
          (st\<lparr>block := append_child (ElemNode (createLine l)) (block st)\<rparr>)"
proof -
  have "cfg (append_h (DRef (length (dom_h hs))) (opens hs ! 1)
            (append_h (DText (l @ [ZWSP])) (length (dom_h hs)) (alloc ''div'' (dom_h hs))))
          (opens hs)
          ((vals st)[1 := append_child (ElemNode (createLine l)) (vals st ! 1)])"
    unfolding createLine_def
    by (rule cfg_append_new(2) [OF sim_cfg [OF assms]]) (simp add: opens_def)
  then show ?thesis using assms
    by (simp add: sim_def createLine_h_def opens_def vals_def)
qed

lemma sim_addBlockLines:
  "sim hs st \<Longrightarrow> sim (addBlockLines_h ls hs) (addBlockLines ls st)"
proof (induction ls arbitrary: hs st)
  case Nil
  then show ?case by simp
next
  case (Cons l ls)
  let ?hs1 = "case createLine_h l (dom_h hs) of
            (a, h1) \<Rightarrow> hs\<lparr>dom_h := append_h (DRef a) (block_h hs) h1\<rparr>"
  let ?st1 = "st\<lparr>block := append_child (ElemNode (createLine l)) (block st)\<rparr>"
  have s1: "sim (pushBlock_h ?hs1) (pushBlock ?st1)"
    by (rule sim_pushBlock [OF sim_createLine_block [OF Cons.prems]])
  have e: "scanOffset_h (pushBlock_h ?hs1) = scanOffset_h hs" "scanOffset (pushBlock ?st1) = scanOffset st"
    by (simp_all add: pushBlock_h_def pushBlock_def Let_def createLine_h_def)
  have "sim ((pushBlock_h ?hs1)\<lparr>scanOffset_h := scanOffset_h hs + (length l + 1)\<rparr>)
      ((pushBlock ?st1)\<lparr>scanOffset := scanOffset st + (length l + 1)\<rparr>)"
    using sim_scanOffset [OF s1, of "length l + 1"] unfolding e .
  from Cons.IH [OF this] show ?case by simp
qed

lemma sim_addText:
  assumes "sim hs st"
  shows "rel_option sim (addText_h t d hs) (addText t d st)"
proof (cases "stack st = []")
  case True
  then show ?thesis using sim_addBlockLines [OF assms] sim_fields(3) [OF assms]
    by (simp add: addText_h_def addText_def)
next
  case False
  have 1: "rel_option sim
      (appendLine_h (hd (split_nl t)) d hs \<bind> addLines_h (tl (split_nl t)) d)
      (appendLine (hd (split_nl t)) d st \<bind> addLines (tl (split_nl t)) d)"
    by (rule rel_option_bind [OF sim_appendLine [OF assms]]) (rule sim_addLines)
  have "rel_option sim
      (appendLine_h (hd (split_nl t)) d hs \<bind> addLines_h (tl (split_nl t)) d
          \<bind> (\<lambda>st1. Some (st1\<lparr>scanOffset_h := scanOffset_h st1 + length t\<rparr>)))
      (appendLine (hd (split_nl t)) d st \<bind> addLines (tl (split_nl t)) d
          \<bind> (\<lambda>st1. Some (st1\<lparr>scanOffset := scanOffset st1 + length t\<rparr>)))"
    by (rule rel_option_bind [OF 1]) (simp add: sim_scanOffset)
  then show ?thesis using False sim_fields(3) [OF assms]
    by (simp add: addText_h_def addText_def Let_def)
qed

lemma sim_pop:
  assumes "sim hs st"
  shows "sim (hs\<lparr>stack_h := butlast (stack_h hs)\<rparr>) (st\<lparr>stack := butlast (stack st)\<rparr>)"
proof -
  note l = sim_length [OF assms]
  have o: "opens (hs\<lparr>stack_h := butlast (stack_h hs)\<rparr>)
      = take (2 + (length (stack st) - 1)) (opens hs)"
    using l by (simp add: opens_def butlast_conv_take take_map)
  have v: "vals (st\<lparr>stack := butlast (stack st)\<rparr>)
      = take (2 + (length (stack st) - 1)) (vals st)"
    by (simp add: vals_def butlast_conv_take take_map)
  have "cfg (dom_h hs) (take (2 + (length (stack st) - 1)) (opens hs))
      (take (2 + (length (stack st) - 1)) (vals st))"
    by (rule cfg_take [OF sim_cfg [OF assms]])
  then show ?thesis unfolding sim_def o v using assms
    by (simp add: sim_def map_butlast)
qed

lemma sim_setIndex:
  assumes "sim hs st"
  shows "sim (hs\<lparr>dom_h := setAttribute_h k v (block_h hs) (dom_h hs)\<rparr>)
      (st\<lparr>block := setAttribute k v (block st)\<rparr>)"
proof -
  have "cfg (setAttribute_h k v (opens hs ! 1) (dom_h hs)) (opens hs)
      ((vals st)[1 := setAttribute k v (vals st ! 1)])"
    by (rule cfg_setAttribute [OF sim_cfg [OF assms]]) (simp add: opens_def)
  then show ?thesis using assms by (simp add: sim_def opens_def vals_def)
qed

lemma sim_closeFrame:
  assumes "sim hs st"
  shows "rel_option sim (closeFrame_h i hs) (closeFrame i st)"
proof -
  have a: "\<And>a b. sim a b \<Longrightarrow> rel_option sim
      (Some ((pushBlock_h (a\<lparr>dom_h := setAttribute_h ''index'' (show_nat i) (block_h a) (dom_h a)\<rparr>))
                \<lparr>scanOffset_h := scanOffset_h a + 1\<rparr>))
      (Some ((pushBlock (b\<lparr>block := setAttribute ''index'' (show_nat i) (block b)\<rparr>))
                \<lparr>scanOffset := scanOffset b + 1\<rparr>))"
  proof -
    fix a b assume s: "sim a b"
    let ?a1 = "a\<lparr>dom_h := setAttribute_h ''index'' (show_nat i) (block_h a) (dom_h a)\<rparr>"
    let ?b1 = "b\<lparr>block := setAttribute ''index'' (show_nat i) (block b)\<rparr>"
    have s1: "sim (pushBlock_h ?a1) (pushBlock ?b1)"
      by (rule sim_pushBlock [OF sim_setIndex [OF s]])
    have e: "scanOffset_h (pushBlock_h ?a1) = scanOffset_h a" "scanOffset (pushBlock ?b1) = scanOffset b"
      by (simp_all add: pushBlock_h_def pushBlock_def Let_def)
    show "rel_option sim
      (Some ((pushBlock_h ?a1)\<lparr>scanOffset_h := scanOffset_h a + 1\<rparr>))
      (Some ((pushBlock ?b1)\<lparr>scanOffset := scanOffset b + 1\<rparr>))"
      using sim_scanOffset [OF s1, of 1] unfolding e by simp
  qed
  have p: "\<And>a b. sim a b \<Longrightarrow> rel_option sim (Some (a\<lparr>stack_h := butlast (stack_h a)\<rparr>))
      (Some (b\<lparr>stack := butlast (stack b)\<rparr>))"
    by (simp add: sim_pop)
  have 1: "rel_option sim (appendToFrame_h 0 (DText [ZWSP]) hs \<bind> pushElement_h 0 True)
      (appendToFrame 0 (TextNode [ZWSP]) st \<bind> pushElement 0 True)"
    by (rule rel_option_bind [OF sim_appendText [OF assms]]) (rule sim_pushElement)
  have 2: "rel_option sim (appendToFrame_h 0 (DText [ZWSP]) hs \<bind> pushElement_h 0 True
          \<bind> (\<lambda>st1. Some ((pushBlock_h (st1\<lparr>dom_h :=
                  setAttribute_h ''index'' (show_nat i) (block_h st1) (dom_h st1)\<rparr>))
                \<lparr>scanOffset_h := scanOffset_h st1 + 1\<rparr>)))
      (appendToFrame 0 (TextNode [ZWSP]) st \<bind> pushElement 0 True
          \<bind> (\<lambda>st1. Some ((pushBlock (st1\<lparr>block := setAttribute ''index'' (show_nat i) (block st1)\<rparr>))
                \<lparr>scanOffset := scanOffset st1 + 1\<rparr>)))"
    by (rule rel_option_bind [OF 1]) (rule a)
  have 3: "rel_option sim
      (if length (stack st) > 1 then pushElement_h (length (stack st) - 1) True hs
       else appendToFrame_h 0 (DText [ZWSP]) hs \<bind> pushElement_h 0 True
          \<bind> (\<lambda>st1. Some ((pushBlock_h (st1\<lparr>dom_h :=
                  setAttribute_h ''index'' (show_nat i) (block_h st1) (dom_h st1)\<rparr>))
                \<lparr>scanOffset_h := scanOffset_h st1 + 1\<rparr>)))
      (if length (stack st) > 1 then pushElement (length (stack st) - 1) True st
       else appendToFrame 0 (TextNode [ZWSP]) st \<bind> pushElement 0 True
          \<bind> (\<lambda>st1. Some ((pushBlock (st1\<lparr>block := setAttribute ''index'' (show_nat i) (block st1)\<rparr>))
                \<lparr>scanOffset := scanOffset st1 + 1\<rparr>)))"
    using 2 sim_pushElement [OF assms] by simp
  show ?thesis unfolding closeFrame_h_def closeFrame_def sim_fields(2) [OF assms]
    by (rule rel_option_bind [OF 3 p])
qed

lemma sim_push:
  assumes "sim hs st"
  shows "sim (hs\<lparr>stack_h := stack_h hs @ [\<lparr>node_h = n, el_h = length (dom_h hs), first_h = True\<rparr>],
                dom_h := alloc t (dom_h hs)\<rparr>)
             (st\<lparr>stack := stack st @ [\<lparr>node = n, el = createElement t, first = True\<rparr>]\<rparr>)"
proof -
  have "cfg (alloc t (dom_h hs)) (opens hs @ [length (dom_h hs)]) (vals st @ [createElement t])"
    by (rule cfg_alloc [OF sim_cfg [OF assms]])
  then show ?thesis using assms by (simp add: sim_def opens_def vals_def)
qed

lemma sim_visit_chain:
  assumes "sim hs st"
    and B: "\<And>eo a b. sim a b \<Longrightarrow> rel_option sim (Bh eo a) (B eo b)"
  shows "rel_option sim
    (case nstart n of None \<Rightarrow> Some hs
      | Some startOffset0 \<Rightarrow>
     (case nend n of None \<Rightarrow> Some hs
      | Some endOffset \<Rightarrow>
        let startOffset = (if startOffset0 < scanOffset_h hs then scanOffset_h hs else startOffset0) in
        if startOffset \<ge> endOffset then Some hs
        else
          addText_h (js_slice S (scanOffset_h hs) startOffset) True hs
          \<bind> (\<lambda>st1. Some (st1\<lparr>stack_h := stack_h st1 @
                  [\<lparr>node_h = n, el_h = length (dom_h st1), first_h = True\<rparr>],
                  dom_h := alloc (if stack_h st1 \<noteq> [] then ''span'' else ''div'') (dom_h st1)\<rparr>))
          \<bind> Bh endOffset
          \<bind> closeFrame_h i))
    (case nstart n of None \<Rightarrow> Some st
      | Some startOffset0 \<Rightarrow>
     (case nend n of None \<Rightarrow> Some st
      | Some endOffset \<Rightarrow>
        let startOffset = (if startOffset0 < scanOffset st then scanOffset st else startOffset0) in
        if startOffset \<ge> endOffset then Some st
        else
          addText (js_slice S (scanOffset st) startOffset) True st
          \<bind> (\<lambda>st1. Some (st1\<lparr>stack := stack st1 @
                  [\<lparr>node = n,
                    el = createElement (if stack st1 \<noteq> [] then ''span'' else ''div''),
                    first = True\<rparr>]\<rparr>))
          \<bind> B endOffset
          \<bind> closeFrame i))"
proof (cases "nstart n")
  case None
  then show ?thesis using assms(1) by simp
next
  case (Some so0)
  show ?thesis
  proof (cases "nend n")
    case None
    then show ?thesis using Some assms(1) by simp
  next
    case (Some eo)
    note e = sim_fields(1) [OF assms(1)]
    let ?so = "if so0 < scanOffset st then scanOffset st else so0"
    have p: "\<And>a b. sim a b \<Longrightarrow> rel_option sim
        (Some (a\<lparr>stack_h := stack_h a @
                  [\<lparr>node_h = n, el_h = length (dom_h a), first_h = True\<rparr>],
                  dom_h := alloc (if stack_h a \<noteq> [] then ''span'' else ''div'') (dom_h a)\<rparr>))
        (Some (b\<lparr>stack := stack b @
                  [\<lparr>node = n,
                    el = createElement (if stack b \<noteq> [] then ''span'' else ''div''),
                    first = True\<rparr>]\<rparr>))"
    proof -
      fix a b assume s: "sim a b"
      show "rel_option sim
        (Some (a\<lparr>stack_h := stack_h a @
                  [\<lparr>node_h = n, el_h = length (dom_h a), first_h = True\<rparr>],
                  dom_h := alloc (if stack_h a \<noteq> [] then ''span'' else ''div'') (dom_h a)\<rparr>))
        (Some (b\<lparr>stack := stack b @
                  [\<lparr>node = n,
                    el = createElement (if stack b \<noteq> [] then ''span'' else ''div''),
                    first = True\<rparr>]\<rparr>))"
        using sim_push [OF s, where n = n and t = "if stack b \<noteq> [] then ''span'' else ''div''"]
          sim_fields(3) [OF s] by simp
    qed
    have 1: "rel_option sim
        (addText_h (js_slice S (scanOffset st) ?so) True hs
          \<bind> (\<lambda>st1. Some (st1\<lparr>stack_h := stack_h st1 @
                  [\<lparr>node_h = n, el_h = length (dom_h st1), first_h = True\<rparr>],
                  dom_h := alloc (if stack_h st1 \<noteq> [] then ''span'' else ''div'') (dom_h st1)\<rparr>)))
        (addText (js_slice S (scanOffset st) ?so) True st
          \<bind> (\<lambda>st1. Some (st1\<lparr>stack := stack st1 @
                  [\<lparr>node = n,
                    el = createElement (if stack st1 \<noteq> [] then ''span'' else ''div''),
                    first = True\<rparr>]\<rparr>)))"
      by (rule rel_option_bind [OF sim_addText [OF assms(1)]]) (rule p)
    have 2: "rel_option sim
        (addText_h (js_slice S (scanOffset st) ?so) True hs
          \<bind> (\<lambda>st1. Some (st1\<lparr>stack_h := stack_h st1 @
                  [\<lparr>node_h = n, el_h = length (dom_h st1), first_h = True\<rparr>],
                  dom_h := alloc (if stack_h st1 \<noteq> [] then ''span'' else ''div'') (dom_h st1)\<rparr>))
          \<bind> Bh eo)
        (addText (js_slice S (scanOffset st) ?so) True st
          \<bind> (\<lambda>st1. Some (st1\<lparr>stack := stack st1 @
                  [\<lparr>node = n,
                    el = createElement (if stack st1 \<noteq> [] then ''span'' else ''div''),
                    first = True\<rparr>]\<rparr>))
          \<bind> B eo)"
      by (rule rel_option_bind [OF 1]) (rule B)
    have 3: "rel_option sim
        (addText_h (js_slice S (scanOffset st) ?so) True hs
          \<bind> (\<lambda>st1. Some (st1\<lparr>stack_h := stack_h st1 @
                  [\<lparr>node_h = n, el_h = length (dom_h st1), first_h = True\<rparr>],
                  dom_h := alloc (if stack_h st1 \<noteq> [] then ''span'' else ''div'') (dom_h st1)\<rparr>))
          \<bind> Bh eo \<bind> closeFrame_h i)
        (addText (js_slice S (scanOffset st) ?so) True st
          \<bind> (\<lambda>st1. Some (st1\<lparr>stack := stack st1 @
                  [\<lparr>node = n,
                    el = createElement (if stack st1 \<noteq> [] then ''span'' else ''div''),
                    first = True\<rparr>]\<rparr>))
          \<bind> B eo \<bind> closeFrame i)"
      by (rule rel_option_bind [OF 2]) (rule sim_closeFrame)
    show ?thesis
      unfolding \<open>nstart n = Some so0\<close> Some e option.case Let_def
      using 3 assms(1) by (cases "eo \<le> ?so") simp_all
  qed
qed

lemma sim_list:
  assumes "\<And>n i hs st. n \<in> set ns \<Longrightarrow> sim hs st \<Longrightarrow>
      rel_option sim (visitNode_h S n i hs) (visitNode S n i st)"
  shows "sim hs st \<Longrightarrow>
    rel_option sim (getChildren_from_h S ns i pe hs) (getChildren_from S ns i pe st)"
  using assms
proof (induction ns arbitrary: i hs st)
  case Nil
  then show ?case using sim_addText [OF Nil(1)] sim_fields(1) [OF Nil(1)] by simp
next
  case (Cons n ns)
  have v: "rel_option sim (visitNode_h S n i hs) (visitNode S n i st)"
    by (rule Cons.prems(2) [OF _ Cons.prems(1)]) simp
  have t: "\<And>m i hs st. m \<in> set ns \<Longrightarrow> sim hs st \<Longrightarrow>
      rel_option sim (visitNode_h S m i hs) (visitNode S m i st)"
  proof -
    fix m i hs st assume "m \<in> set ns" and s: "sim hs st"
    then have "m \<in> set (n # ns)" by simp
    from Cons.prems(2) [OF this s] show "rel_option sim (visitNode_h S m i hs) (visitNode S m i st)" .
  qed
  have r: "\<And>a b. sim a b \<Longrightarrow> rel_option sim (getChildren_from_h S ns (Suc i) pe a)
      (getChildren_from S ns (Suc i) pe b)"
    by (rule Cons.IH [OF _ t])
  show ?case unfolding getChildren_from_h.simps getChildren_from.simps
    by (rule rel_option_bind [OF v]) (rule r)
qed

lemma sim_visit:
  "sim hs st \<Longrightarrow> rel_option sim (visitNode_h S n i hs) (visitNode S n i st)"
proof (induction n arbitrary: i hs st)
  case (Literal ty d so eo)
  show ?case unfolding visitNode_h.simps visitNode.simps
  proof (rule sim_visit_chain [OF Literal])
    fix e a b assume s: "sim a b"
    show "rel_option sim
        (case Literal ty d so eo of
           Literal x1 x2 x3 x4 \<Rightarrow> addText_h (js_slice S (scanOffset_h a) e) False a
         | Parent x1 x2 x3 x4 cs \<Rightarrow> getChildren_from_h S cs 0 e a)
        (case Literal ty d so eo of
           Literal x1 x2 x3 x4 \<Rightarrow> addText (js_slice S (scanOffset b) e) False b
         | Parent x1 x2 x3 x4 cs \<Rightarrow> getChildren_from S cs 0 e b)"
      using sim_addText [OF s] sim_fields(1) [OF s] by simp
  qed
next
  case (Parent ty d so eo cs)
  show ?case unfolding visitNode_h.simps visitNode.simps
  proof (rule sim_visit_chain [OF Parent.prems])
    fix e a b assume s: "sim a b"
    have "rel_option sim (getChildren_from_h S cs 0 e a) (getChildren_from S cs 0 e b)"
      by (rule sim_list [OF _ s]) (rule Parent.IH)
    then show "rel_option sim
        (case Parent ty d so eo cs of
           Literal x1 x2 x3 x4 \<Rightarrow> addText_h (js_slice S (scanOffset_h a) e) False a
         | Parent x1 x2 x3 x4 cs \<Rightarrow> getChildren_from_h S cs 0 e a)
        (case Parent ty d so eo cs of
           Literal x1 x2 x3 x4 \<Rightarrow> addText (js_slice S (scanOffset b) e) False b
         | Parent x1 x2 x3 x4 cs \<Rightarrow> getChildren_from S cs 0 e b)"
      by simp
  qed
qed

lemma sim_getChildren_from:
  "sim hs st \<Longrightarrow>
    rel_option sim (getChildren_from_h S ns i pe hs) (getChildren_from S ns i pe st)"
  by (rule sim_list) (rule sim_visit)

lemma sim_init:
  assumes "wf_dom h"
  shows "sim (init_state_h h) init_state"
proof -
  have c0: "cfg h [] []" using assms by (simp add: cfg_def)
  have c1: "cfg (alloc ''div'' h) [length h] [createElement ''div'']"
    using cfg_alloc [OF c0, of "''div''"] by simp
  have c2: "cfg (alloc ''div'' (alloc ''div'' h)) [length h, Suc (length h)]
      [createElement ''div'', createElement ''div'']"
    using cfg_alloc [OF c1, of "''div''"] by simp
  have "cfg (alloc ''div'' (alloc ''div'' h)) [Suc (length h), length h]
      [createElement ''div'', createElement ''div'']"
    using c2 unfolding cfg_def by (auto simp: less_Suc_eq nth_Cons')
  then show ?thesis
    by (simp add: sim_def init_state_h_def init_state_def opens_def vals_def)
qed

lemma sim_finish:
  assumes "sim hs st"
  shows "sim (finish_h S hs) (finish S st)"
proof (cases "scanOffset st \<le> length S")
  case True
  have "sim (pushBlock_h (case createLine_h (drop (scanOffset st) S) (dom_h hs) of
             (a, h1) \<Rightarrow> hs\<lparr>dom_h := append_h (DRef a) (block_h hs) h1\<rparr>))
      (pushBlock (st\<lparr>block := append_child (ElemNode (createLine (drop (scanOffset st) S))) (block st)\<rparr>))"
    by (rule sim_pushBlock [OF sim_createLine_block [OF assms]])
  then show ?thesis using True sim_fields(1) [OF assms] by (simp add: finish_h_def finish_def)
next
  case False
  then show ?thesis using assms sim_fields(1) [OF assms] by (simp add: finish_h_def finish_def)
qed

lemma sim_root:
  assumes "sim hs st"
  shows "repr (dom_h hs) (rootEl_h hs) (rootEl st)" "wf_dom (dom_h hs)"
  using sim_cfg [OF assms] by (auto simp: cfg_def opens_def vals_def)

text \<open>The call over the store returns an object that holds the tree of the call over
  values, whatever the store held before.\<close>

lemma editorRender_h_repr:
  assumes "wf_dom h"
  shows "\<exists>r a h'. editorRender S nodes = Some r \<and> editorRender_h S nodes h = Some (a, h')
      \<and> repr h' a r \<and> wf_dom h'"
proof -
  obtain st where p: "getChildren_from S nodes 0 (length S) init_state = Some st"
    using renderPass_total [of S nodes] by (auto simp: renderPass_def getChildren_def)
  have "rel_option sim (getChildren_from_h S nodes 0 (length S) (init_state_h h))
      (getChildren_from S nodes 0 (length S) init_state)"
    by (rule sim_getChildren_from [OF sim_init [OF assms]])
  then obtain hs where ph: "getChildren_from_h S nodes 0 (length S) (init_state_h h) = Some hs"
    and s: "sim hs st"
    unfolding p by (cases "getChildren_from_h S nodes 0 (length S) (init_state_h h)") auto
  note f = sim_root [OF sim_finish [OF s, of S]]
  have "editorRender S nodes = Some (rootEl (finish S st))"
    using p by (simp add: editorRender_def renderPass_def getChildren_def)
  moreover have "editorRender_h S nodes h = Some (rootEl_h (finish_h S hs), dom_h (finish_h S hs))"
    using ph by (simp add: editorRender_h_def)
  ultimately show ?thesis using f by blast
qed

section \<open>Text fidelity\<close>

text \<open>
  C1 (as stated): for every source text and parsed tree, the lines of the output tree,
  read in document order without their markers and joined by the line breaks they
  consumed, are the source text.  For the text \<open>ab\<close> and one top-level node over
  \<open>a\<close> only (a tree within the ranges of the input contract) the output holds
  \<open>a\<close>, two markers and nothing else: closing the block consumes the character
  after the node as if it were the line break, and \<open>b\<close> is lost.
\<close>

theorem text_fidelity_counterexample:
  "map_option reconstruct (editorRender midline_src midline_tree) = Some (ascii ''a'' @ [NL])
   \<and> map_option text_of (editorRender midline_src midline_tree) = Some (ascii ''a'' @ [ZWSP, ZWSP])
   \<and> map_option reconstruct (editorRender midline_src midline_tree) \<noteq> Some midline_src"
  by code_simp

text \<open>
  C1 (amended): for every source text \<open>S\<close> and every parsed tree in which each
  top-level node that carries a range ends within \<open>S\<close>, at a line break or at the end
  of \<open>S\<close>, and the ranges of its descendants end within the range of their parent,
  \<open>editorRender\<close> returns a tree, and the texts of its lines (the grandchildren of
  the root, in document order, each without its final marker), joined by line breaks,
  are \<open>S\<close> exactly.
\<close>

theorem text_fidelity:
  assumes "well_ranged S nodes"
  shows "\<exists>r. editorRender S nodes = Some r \<and> reconstruct r = S"
proof -
  obtain st where p: "getChildren_from S nodes 0 (length S) init_state = Some st"
    and m: "map node (stack st) = map node (stack init_state)"
    using visit_total_aux(1) by blast
  have e: "stack st = []" using m by (simp add: init_state_def)
  have f: "fidelity S st"
    using fidelity_top [OF fidelity_init _ _ p] assms
    by (simp add: init_state_def well_ranged_def)
  have b: "block st = createElement ''div''"
    using block_fresh_traversal(1) [OF block_fresh_init p] e by (simp add: block_fresh_def)
  show ?thesis
    using finish_reconstruct [OF f e b] p
    by (simp add: editorRender_def renderPass_def getChildren_def)
qed

theorem text_fidelity_witness:
  "well_ranged quote_src quote_tree
   \<and> (\<exists>r. editorRender quote_src quote_tree = Some r \<and> reconstruct r = quote_src)"
proof -
  have h: "well_ranged quote_src quote_tree" by code_simp
  show ?thesis using h text_fidelity [OF h] by simp
qed

section \<open>The scan offset\<close>

text \<open>
  C2 (as stated): during a pass \<open>scanOffset\<close> never decreases and never exceeds the
  length of the source text.  The second half fails: for the text \<open>a\<close>, parsed as
  one paragraph, the pass ends with \<open>scanOffset = 2\<close>, one more than the length,
  since closing the block counts the line break that would follow it.
\<close>

theorem scanOffset_counterexample:
  "map_option scanOffset (renderPass single_src single_tree) = Some 2 \<and> length single_src = 1"
  by code_simp

text \<open>
  C2 (amended): every update of \<open>scanOffset\<close> leaves it equal or greater: that holds
  for \<open>addText\<close> and for the closing of a frame, the two places that write it, and
  so for the visit of a node and of a list of nodes.  It can exceed the length of the
  source text by one, and by no more when every top-level node ends within the text:
  then the pass ends with \<open>scanOffset \<le> length S + 1\<close>, and by monotonicity
  the bound holds at every point of the pass.
\<close>

theorem scanOffset_monotone:
  "(\<forall>t d st st'. addText t d st = Some st' \<longrightarrow> scanOffset st \<le> scanOffset st')
   \<and> (\<forall>i st st'. closeFrame i st = Some st' \<longrightarrow> scanOffset st \<le> scanOffset st')
   \<and> (\<forall>n i st st'. visitNode S n i st = Some st' \<longrightarrow> scanOffset st \<le> scanOffset st')
   \<and> (\<forall>ns i pe st st'. getChildren_from S ns i pe st = Some st' \<longrightarrow>
        scanOffset st \<le> scanOffset st')
   \<and> (ends_in S nodes \<longrightarrow>
        (\<exists>st. renderPass S nodes = Some st \<and> scanOffset st \<le> Suc (length S)))"
proof -
  have "ends_in S nodes \<longrightarrow>
        (\<exists>st. renderPass S nodes = Some st \<and> scanOffset st \<le> Suc (length S))"
  proof
    assume h: "ends_in S nodes"
    obtain st where p: "renderPass S nodes = Some st" using renderPass_total by blast
    then have "getChildren_from S nodes 0 (length S) init_state = Some st"
      by (simp add: renderPass_def getChildren_def)
    from scanOffset_top_bound [OF _ _ h this] p
    show "\<exists>st. renderPass S nodes = Some st \<and> scanOffset st \<le> Suc (length S)"
      by (simp add: init_state_def)
  qed
  moreover have "\<forall>t d st st'. addText t d st = Some st' \<longrightarrow> scanOffset st \<le> scanOffset st'"
    by (intro allI impI) (rule addText_fields(2))
  moreover have "\<forall>i st st'. closeFrame i st = Some st' \<longrightarrow> scanOffset st \<le> scanOffset st'"
    by (intro allI impI) (rule closeFrame_fields(2))
  moreover have "\<forall>n i st st'. visitNode S n i st = Some st' \<longrightarrow> scanOffset st \<le> scanOffset st'"
    by (intro allI impI) (rule scanOffset_mono(2))
  moreover have "\<forall>ns i pe st st'. getChildren_from S ns i pe st = Some st' \<longrightarrow>
        scanOffset st \<le> scanOffset st'"
    by (intro allI impI) (rule scanOffset_mono(1))
  ultimately show ?thesis by (intro conjI)
qed

theorem scanOffset_monotone_witness:
  "(\<exists>st'. addText [NL] True init_state = Some st' \<and> scanOffset init_state \<le> scanOffset st')
   \<and> (\<exists>st'. closeFrame 0 (pushFrame (hd single_tree) init_state) = Some st'
          \<and> scanOffset (pushFrame (hd single_tree) init_state) \<le> scanOffset st')
   \<and> (\<exists>st'. visitNode single_src (hd single_tree) 0 init_state = Some st'
          \<and> scanOffset init_state \<le> scanOffset st')
   \<and> (\<exists>st'. getChildren_from single_src single_tree 0 1 init_state = Some st'
          \<and> scanOffset init_state \<le> scanOffset st')
   \<and> ends_in single_src single_tree
   \<and> (\<exists>st. renderPass single_src single_tree = Some st
          \<and> scanOffset st \<le> Suc (length single_src))"
proof -
  note t = scanOffset_monotone [of single_src single_tree]
  from t have c1: "\<forall>t d st st'. addText t d st = Some st' \<longrightarrow> scanOffset st \<le> scanOffset st'"
    by (rule conjunct1)
  from t have c2: "\<forall>i st st'. closeFrame i st = Some st' \<longrightarrow> scanOffset st \<le> scanOffset st'"
    by (rule conjunct1 [OF conjunct2])
  from t have c3: "\<forall>n i st st'. visitNode single_src n i st = Some st' \<longrightarrow>
      scanOffset st \<le> scanOffset st'"
    by (rule conjunct1 [OF conjunct2 [OF conjunct2]])
  from t have c4: "\<forall>ns i pe st st'. getChildren_from single_src ns i pe st = Some st' \<longrightarrow>
      scanOffset st \<le> scanOffset st'"
    by (rule conjunct1 [OF conjunct2 [OF conjunct2 [OF conjunct2]]])
  from t have c5: "ends_in single_src single_tree \<longrightarrow>
      (\<exists>st. renderPass single_src single_tree = Some st
          \<and> scanOffset st \<le> Suc (length single_src))"
    by (rule conjunct2 [OF conjunct2 [OF conjunct2 [OF conjunct2]]])
  have h: "ends_in single_src single_tree" by code_simp
  obtain s1 where a: "addText [NL] True init_state = Some s1" using addText_Some by blast
  have "stack (pushFrame (hd single_tree) init_state) \<noteq> []" by simp
  then obtain s0 where c: "closeFrame 0 (pushFrame (hd single_tree) init_state) = Some s0"
    using closeFrame_Some by blast
  obtain s2 where v: "visitNode single_src (hd single_tree) 0 init_state = Some s2"
    using visit_total_aux(2) by blast
  obtain s3 where g: "getChildren_from single_src single_tree 0 1 init_state = Some s3"
    using visit_total_aux(1) by blast
  have m1: "scanOffset init_state \<le> scanOffset s1"
    using c1 [rule_format, OF a] .
  have m0: "scanOffset (pushFrame (hd single_tree) init_state) \<le> scanOffset s0"
    using c2 [rule_format, OF c] .
  have m2: "scanOffset init_state \<le> scanOffset s2"
    using c3 [rule_format, OF v] .
  have m3: "scanOffset init_state \<le> scanOffset s3"
    using c4 [rule_format, OF g] .
  show ?thesis
    using a m1 c m0 v m2 g m3 h c5 [rule_format, OF h] by blast
qed

section \<open>No exception: missing ranges, clamping and skipping\<close>

text \<open>
  C3: for every source text and every parsed tree \<open>editorRender\<close> returns a tree (no
  read of the stack is out of range, the only thing that could throw).  A node without
  a start or an end offset contributes nothing and the loop goes on with its siblings;
  a node whose start is below \<open>scanOffset\<close> is processed from \<open>scanOffset\<close> on: no
  text between the two is emitted again, its own text is taken from \<open>scanOffset\<close>, and
  \<open>scanOffset\<close> does not go back; a node whose clamped start is at or after its end is
  skipped, the state unchanged.
\<close>

theorem editorRender_no_exception:
  "(\<exists>r. editorRender S nodes = Some r)
   \<and> (nstart n = None \<or> nend n = None \<longrightarrow>
        visitNode S n i st = Some st
        \<and> getChildren_from S (n # ns) i pe st = getChildren_from S ns (Suc i) pe st)
   \<and> (nstart n = Some so \<and> nend n = Some eo \<and> so < scanOffset st \<and> scanOffset st < eo \<longrightarrow>
        visitNode S n i st = visitBody S n eo (pushFrame n st) \<bind> closeFrame i
        \<and> (\<exists>st'. visitNode S n i st = Some st' \<and> scanOffset st \<le> scanOffset st'))
   \<and> (nstart n = Some so \<and> nend n = Some eo \<and> eo \<le> max so (scanOffset st) \<longrightarrow>
        visitNode S n i st = Some st
        \<and> getChildren_from S (n # ns) i pe st = getChildren_from S ns (Suc i) pe st)"
proof (intro conjI impI)
  show "\<exists>r. editorRender S nodes = Some r" by (rule editorRender_total)
next
  assume "nstart n = None \<or> nend n = None"
  then show "visitNode S n i st = Some st" by (intro visitNode_skip) blast
  then show "getChildren_from S (n # ns) i pe st = getChildren_from S ns (Suc i) pe st"
    by simp
next
  assume a: "nstart n = Some so \<and> nend n = Some eo \<and> so < scanOffset st \<and> scanOffset st < eo"
  then have a': "nstart n = Some so" "nend n = Some eo" "so < scanOffset st" "scanOffset st < eo"
    by simp_all
  show "visitNode S n i st = visitBody S n eo (pushFrame n st) \<bind> closeFrame i"
    by (rule visitNode_clamped [OF a'])
  obtain st' where v: "visitNode S n i st = Some st'" using visit_total_aux(2) by blast
  then show "\<exists>st'. visitNode S n i st = Some st' \<and> scanOffset st \<le> scanOffset st'"
    using scanOffset_mono(2) [OF v] by simp
next
  assume "nstart n = Some so \<and> nend n = Some eo \<and> eo \<le> max so (scanOffset st)"
  then show "visitNode S n i st = Some st" by (intro visitNode_skip) simp
  then show "getChildren_from S (n # ns) i pe st = getChildren_from S ns (Suc i) pe st"
    by simp
qed

theorem editorRender_no_exception_witness:
  "(\<exists>r. editorRender clamp_src [norange_node, clamp_node] = Some r)
   \<and> nstart norange_node = None
   \<and> visitNode clamp_src norange_node 0 init_state = Some init_state
   \<and> getChildren_from clamp_src [norange_node, clamp_node] 0 2 init_state
       = getChildren_from clamp_src [clamp_node] (Suc 0) 2 init_state
   \<and> nstart clamp_node = Some 0 \<and> nend clamp_node = Some 2
   \<and> 0 < scanOffset clamp_state \<and> scanOffset clamp_state < 2
   \<and> visitNode clamp_src clamp_node 0 clamp_state
       = visitBody clamp_src clamp_node 2 (pushFrame clamp_node clamp_state) \<bind> closeFrame 0
   \<and> (\<exists>st'. visitNode clamp_src clamp_node 0 clamp_state = Some st'
         \<and> scanOffset clamp_state \<le> scanOffset st')
   \<and> 2 \<le> max 0 (scanOffset (clamp_state\<lparr>scanOffset := 2\<rparr>))
   \<and> visitNode clamp_src clamp_node 0 (clamp_state\<lparr>scanOffset := 2\<rparr>)
       = Some (clamp_state\<lparr>scanOffset := 2\<rparr>)"
proof -
  have h1: "nstart norange_node = None" by (simp add: norange_node_def)
  have h2: "nstart clamp_node = Some 0" "nend clamp_node = Some 2"
    "0 < scanOffset clamp_state" "scanOffset clamp_state < 2"
    by (simp_all add: clamp_node_def clamp_state_def init_state_def)
  have h3: "2 \<le> max 0 (scanOffset (clamp_state\<lparr>scanOffset := 2\<rparr>))"
    by simp
  note t1 = editorRender_no_exception [of clamp_src "[norange_node, clamp_node]" norange_node
      0 init_state "[clamp_node]" 2 0 0]
  note t2 = editorRender_no_exception [of clamp_src "[]" clamp_node
      0 clamp_state "[]" 2 0 2]
  note t3 = editorRender_no_exception [of clamp_src "[]" clamp_node
      0 "clamp_state\<lparr>scanOffset := 2\<rparr>" "[]" 2 0 2]
  from t1 have c1: "\<exists>r. editorRender clamp_src [norange_node, clamp_node] = Some r"
    by (rule conjunct1)
  have c2: "visitNode clamp_src norange_node 0 init_state = Some init_state
        \<and> getChildren_from clamp_src [norange_node, clamp_node] 0 2 init_state
           = getChildren_from clamp_src [clamp_node] (Suc 0) 2 init_state"
    by (rule mp [OF conjunct1 [OF conjunct2 [OF t1]]]) (rule disjI1 [OF h1])
  have c3: "visitNode clamp_src clamp_node 0 clamp_state
        = visitBody clamp_src clamp_node 2 (pushFrame clamp_node clamp_state) \<bind> closeFrame 0
        \<and> (\<exists>st'. visitNode clamp_src clamp_node 0 clamp_state = Some st'
              \<and> scanOffset clamp_state \<le> scanOffset st')"
    by (rule mp [OF conjunct1 [OF conjunct2 [OF conjunct2 [OF t2]]]]) (intro conjI h2)
  have c4: "visitNode clamp_src clamp_node 0 (clamp_state\<lparr>scanOffset := 2\<rparr>)
        = Some (clamp_state\<lparr>scanOffset := 2\<rparr>)"
    by (rule conjunct1 [OF mp [OF conjunct2 [OF conjunct2 [OF conjunct2 [OF t3]]]]])
      (intro conjI h2 h3)
  show ?thesis
    by (intro conjI c1 h1 h2 h3 c2 [THEN conjunct1] c2 [THEN conjunct2]
        c3 [THEN conjunct1] c3 [THEN conjunct2] c4)
qed

section \<open>The terminal block\<close>

text \<open>
  C4: for every source text and every parsed tree the root that \<open>editorRender\<close>
  returns is a \<open>div\<close> with at least one child, and its children are block containers
  (\<open>div\<close> elements of class \<open><prefix>block\<close>).  For the empty source text, with any
  tree whose top-level nodes end within it (the empty tree of Scenario A among them),
  the result is a root with exactly one block, which has exactly one line, whose only
  content is the zero-width marker.
\<close>

theorem terminal_block:
  "(\<exists>r b bs. editorRender S nodes = Some r \<and> tag r = ''div'' \<and> kids r = b # bs
      \<and> list_all is_block (b # bs))
   \<and> (ends_in [] nodes \<longrightarrow>
        editorRender [] nodes = Some (Element ''div'' [] []
          [ElemNode (Element ''div'' [classNamePrefix @ ''block''] []
             [ElemNode (Element ''div'' [] [] [TextNode [ZWSP]])])]))"
proof
  from editorRender_blocks [of S nodes] obtain r new js where
    r: "editorRender S nodes = Some r" "r = append_kids new (createElement ''div'')"
      "new \<noteq> []" "blocks_ok js new" by blast
  obtain b bs where n: "new = b # bs" using r(3) by (cases new) auto
  have "tag r = ''div''" "kids r = b # bs" "list_all is_block (b # bs)"
    using r(2,4) n by (simp_all add: blocks_ok_def)
  then show "\<exists>r b bs. editorRender S nodes = Some r \<and> tag r = ''div'' \<and> kids r = b # bs
      \<and> list_all is_block (b # bs)"
    using r(1) by blast
next
  show "ends_in [] nodes \<longrightarrow>
        editorRender [] nodes = Some (Element ''div'' [] []
          [ElemNode (Element ''div'' [classNamePrefix @ ''block''] []
             [ElemNode (Element ''div'' [] [] [TextNode [ZWSP]])])])"
  proof
    assume "ends_in [] nodes"
    then have "renderPass [] nodes = Some init_state"
      using getChildren_from_empty_src by (simp add: renderPass_def getChildren_def)
    then show "editorRender [] nodes = Some (Element ''div'' [] []
          [ElemNode (Element ''div'' [classNamePrefix @ ''block''] []
             [ElemNode (Element ''div'' [] [] [TextNode [ZWSP]])])])"
      by (simp add: editorRender_def finish_def init_state_def pushBlock_def createLine_def
          createElement_def append_child_def classList_add_def)
  qed
qed

theorem terminal_block_witness:
  "ends_in [] []
   \<and> editorRender [] [] = Some (Element ''div'' [] []
        [ElemNode (Element ''div'' [classNamePrefix @ ''block''] []
           [ElemNode (Element ''div'' [] [] [TextNode [ZWSP]])])])"
proof -
  have h: "ends_in [] []" by (simp add: ends_in_def)
  show ?thesis
    using h mp [OF conjunct2 [OF terminal_block [of "[]" "[]"]] h] by (intro conjI)
qed

section \<open>Scenario B\<close>

text \<open>
  C5 (as stated): for \<open>"para1\n\npara2"\<close>, parsed as two paragraphs, the root has
  exactly two blocks.  The code gives three: with the stack empty, \<open>addText\<close> wraps
  the empty line between the paragraphs in a block of its own.
\<close>

theorem scenarioB_two_blocks_counterexample:
  "map_option (length \<circ> kids) (editorRender scenarioB_src scenarioB_tree) = Some 3"
  by code_simp

text \<open>
  C5 (amended): for \<open>"para1\n\npara2"\<close>, parsed as two paragraphs, the root has
  exactly three blocks: the first (index 0) has one line with the text \<open>para1\<close> and
  then the boundary marker, the second (no index) has one line holding the marker
  only, for the empty line between the paragraphs, and the third (index 1) has one
  line with the text \<open>para2\<close> and then the marker.
\<close>

theorem scenarioB_output:
  "editorRender scenarioB_src scenarioB_tree =
     Some (Element ''div'' [] []
       [ElemNode (Element ''div'' [''x-star-md-editor-block''] [(''index'', ''0'')]
          [ElemNode (Element ''div'' [''x-star-md-editor-paragraph''] []
             [ElemNode (Element ''span'' [''x-star-md-editor-text''] []
                [TextNode (ascii ''para1'')]),
              TextNode [ZWSP]])]),
        ElemNode (Element ''div'' [''x-star-md-editor-block''] []
          [ElemNode (Element ''div'' [] [] [TextNode [ZWSP]])]),
        ElemNode (Element ''div'' [''x-star-md-editor-block''] [(''index'', ''1'')]
          [ElemNode (Element ''div'' [''x-star-md-editor-paragraph''] []
             [ElemNode (Element ''span'' [''x-star-md-editor-text''] []
                [TextNode (ascii ''para2'')]),
              TextNode [ZWSP]])])])"
  by code_simp

section \<open>The children of the root\<close>




section \<open>The markers of the first and the last line\<close>

text \<open>
  C7 (as stated): the two per-line elements of an opaque node that spans two lines,
  the first with the class \<open><prefix>first\<close> and the second with \<open><prefix>last\<close>,
  are siblings.  For \<open>"x <a\nb>"\<close>, a paragraph whose second child is a raw html tag
  written over two lines, the two elements that carry the class of the html node
  are \<open>span\<close>s in two different line elements: the first is a child of the first
  line of the paragraph and the second a child of the second line.
\<close>

theorem inline_html_counterexample:
  "editorRender inline_html_src inline_html_tree =
     Some (Element ''div'' [] []
       [ElemNode (Element ''div'' [''x-star-md-editor-block''] [(''index'', ''0'')]
          [ElemNode (Element ''div'' [''x-star-md-editor-paragraph''] []
             [ElemNode (Element ''span'' [''x-star-md-editor-text''] []
                [TextNode (ascii ''x '')]),
              ElemNode (Element ''span''
                [''x-star-md-editor-html'', ''x-star-md-editor-first''] []
                [TextNode (ascii ''<a'')]),
              TextNode [ZWSP]]),
           ElemNode (Element ''div'' [''x-star-md-editor-paragraph''] []
             [ElemNode (Element ''span''
                [''x-star-md-editor-html'', ''x-star-md-editor-last''] []
                [TextNode (ascii ''b>'')]),
              TextNode [ZWSP]])])])"
  by code_simp

text \<open>
  C7 (amended): let a node of type \<open>html\<close>, \<open>code\<close> or \<open>math\<close> without children start
  at or after the scan offset, its range \<open>[so, eo)\<close> holding exactly one line break,
  between the lines \<open>l1\<close> and \<open>l2\<close>.  Its visit returns, and

  \<^item> at top level (empty stack) the block it closes, the last child of the root, ends
    with two sibling line elements whose class lists are the class of the type with
    \<open><prefix>first\<close>, and the class of the type with \<open><prefix>last\<close>; the first
    line holds, before \<open>l1\<close>, what the text has between the last line break before
    the node and the node; a block that was empty before the visit holds these two
    lines only;

  \<^item> below a node of flow content (\<open>blockquote\<close>, \<open>listItem\<close>, \<open>footnoteDefinition\<close>)
    the markers go to the line elements: the line pushed last to the block carries
    the class of the type and \<open><prefix>first\<close>, and the line being filled, the
    element of frame 0, has the class of the type and \<open><prefix>last\<close>;

  \<^item> below any other node the two elements are \<open>span\<close>s in two different lines: the
    first, with the class of the type, \<open><prefix>first\<close> and the text \<open>l1\<close>, is
    inside the line pushed last to the block, and the second, with the class of the
    type, \<open><prefix>last\<close> and the text \<open>l2\<close>, is the last child of the element of its
    parent in the line being filled.

  The element of a node of any other type gets the class of its type, and for a
  heading the class of its depth, and nothing else, whatever the flags \<open>first\<close> and
  \<open>last\<close> are.  For a tree without a node of an opaque type (no node type being
  spelled \<open>first\<close> or \<open>last\<close>) no element of the output carries a marker.
\<close>

theorem opaque_two_lines:
  "(opaque ty \<and> scanOffset st \<le> so \<and> split_nl (js_slice S so eo) = [l1, l2] \<longrightarrow>
     (\<exists>st'. visitNode S (Literal ty d (Some so) (Some eo)) i st = Some st'
      \<and> (stack st = [] \<longrightarrow>
           (\<exists>B pre. last (kids (rootEl st')) = ElemNode B
             \<and> kids B = pre @
                 [ElemNode (Element ''div'' [classNamePrefix @ ty, classNamePrefix @ ''first''] []
                    (text_kids (last (split_nl (js_slice S (scanOffset st) so)) @ l1)
                       @ [TextNode [ZWSP]])),
                  ElemNode (Element ''div'' [classNamePrefix @ ty, classNamePrefix @ ''last''] []
                    (text_kids l2 @ [TextNode [ZWSP]]))]
             \<and> (kids (block st) = [] \<longrightarrow> pre = [])))
      \<and> (stack st \<noteq> [] \<longrightarrow>
           (\<exists>L1. last (kids (block st')) = ElemNode L1
             \<and> (isFlowContent (node (last (stack st))) \<longrightarrow>
                  classNamePrefix @ ty \<in> set (classes L1)
                  \<and> classNamePrefix @ ''first'' \<in> set (classes L1)
                  \<and> classes (el (stack st' ! 0))
                      = [classNamePrefix @ ty, classNamePrefix @ ''last''])
             \<and> (\<not> isFlowContent (node (last (stack st))) \<longrightarrow>
                  ElemNode (Element ''span'' [classNamePrefix @ ty, classNamePrefix @ ''first'']
                     [] (text_kids l1)) \<in> set (desc L1)
                  \<and> last (kids (el (last (stack st')))) =
                      ElemNode (Element ''span'' [classNamePrefix @ ty, classNamePrefix @ ''last'']
                        [] (text_kids l2)))))))
   \<and> (\<not> opaque (ntype n) \<longrightarrow> addStyle n a b e =
         (if ntype n = ''heading''
          then classList_add (classNamePrefix @ ''heading'' @ show_nat (ndepth n))
                 (classList_add (classNamePrefix @ ntype n) e)
          else classList_add (classNamePrefix @ ntype n) e))
   \<and> ((\<forall>m\<in>set nodes. plain m) \<longrightarrow> (\<exists>r. editorRender T nodes = Some r \<and> unmarked r))"
proof (intro conjI impI)
  assume a: "opaque ty \<and> scanOffset st \<le> so \<and> split_nl (js_slice S so eo) = [l1, l2]"
  then have assms: "opaque ty" "scanOffset st \<le> so" "split_nl (js_slice S so eo) = [l1, l2]"
    by simp_all
  show "\<exists>st'. visitNode S (Literal ty d (Some so) (Some eo)) i st = Some st'
      \<and> (stack st = [] \<longrightarrow>
           (\<exists>B pre. last (kids (rootEl st')) = ElemNode B
             \<and> kids B = pre @
                 [ElemNode (Element ''div'' [classNamePrefix @ ty, classNamePrefix @ ''first''] []
                    (text_kids (last (split_nl (js_slice S (scanOffset st) so)) @ l1)
                       @ [TextNode [ZWSP]])),
                  ElemNode (Element ''div'' [classNamePrefix @ ty, classNamePrefix @ ''last''] []
                    (text_kids l2 @ [TextNode [ZWSP]]))]
             \<and> (kids (block st) = [] \<longrightarrow> pre = [])))
      \<and> (stack st \<noteq> [] \<longrightarrow>
           (\<exists>L1. last (kids (block st')) = ElemNode L1
             \<and> (isFlowContent (node (last (stack st))) \<longrightarrow>
                  classNamePrefix @ ty \<in> set (classes L1)
                  \<and> classNamePrefix @ ''first'' \<in> set (classes L1)
                  \<and> classes (el (stack st' ! 0))
                      = [classNamePrefix @ ty, classNamePrefix @ ''last''])
             \<and> (\<not> isFlowContent (node (last (stack st))) \<longrightarrow>
                  ElemNode (Element ''span'' [classNamePrefix @ ty, classNamePrefix @ ''first'']
                     [] (text_kids l1)) \<in> set (desc L1)
                  \<and> last (kids (el (last (stack st')))) =
                      ElemNode (Element ''span'' [classNamePrefix @ ty, classNamePrefix @ ''last'']
                        [] (text_kids l2)))))"
  proof (cases "stack st = []")
    case True
    from opaque_visit_top [OF assms True, of d i] obtain st' B pre where
      "visitNode S (Literal ty d (Some so) (Some eo)) i st = Some st'"
      "last (kids (rootEl st')) = ElemNode B"
      "kids B = pre @
         [ElemNode (Element ''div'' [classNamePrefix @ ty, classNamePrefix @ ''first''] []
            (text_kids (last (split_nl (js_slice S (scanOffset st) so)) @ l1)
               @ [TextNode [ZWSP]])),
          ElemNode (Element ''div'' [classNamePrefix @ ty, classNamePrefix @ ''last''] []
            (text_kids l2 @ [TextNode [ZWSP]]))]"
      "kids (block st) = [] \<longrightarrow> pre = []"
      by blast
    then show ?thesis using True by blast
  next
    case False
    from opaque_visit_nested [OF assms False, of d i] obtain st' L1 where
      "visitNode S (Literal ty d (Some so) (Some eo)) i st = Some st'"
      "last (kids (block st')) = ElemNode L1"
      "\<not> isFlowContent (node (last (stack st))) \<longrightarrow>
          ElemNode (Element ''span'' [classNamePrefix @ ty, classNamePrefix @ ''first''] []
             (text_kids l1)) \<in> set (desc L1)
          \<and> last (kids (el (last (stack st')))) =
              ElemNode (Element ''span'' [classNamePrefix @ ty, classNamePrefix @ ''last''] []
                (text_kids l2))"
      "isFlowContent (node (last (stack st))) \<longrightarrow>
          classNamePrefix @ ty \<in> set (classes L1)
          \<and> classNamePrefix @ ''first'' \<in> set (classes L1)
          \<and> classes (el (stack st' ! 0)) = [classNamePrefix @ ty, classNamePrefix @ ''last'']"
      by blast
    then show ?thesis using False by blast
  qed
next
  assume "\<not> opaque (ntype n)"
  then show "addStyle n a b e =
         (if ntype n = ''heading''
          then classList_add (classNamePrefix @ ''heading'' @ show_nat (ndepth n))
                 (classList_add (classNamePrefix @ ntype n) e)
          else classList_add (classNamePrefix @ ntype n) e)"
    by (rule addStyle_not_opaque)
next
  assume p: "\<forall>m\<in>set nodes. plain m"
  obtain r where r: "editorRender T nodes = Some r" using editorRender_total by blast
  then show "\<exists>r. editorRender T nodes = Some r \<and> unmarked r"
    using plain_render [OF p r] by blast
qed

theorem opaque_two_lines_witness:
  "(opaque ''code'' \<and> scanOffset init_state \<le> 0
     \<and> split_nl (js_slice code_src 0 5) = [ascii ''ab'', ascii ''cd''])
   \<and> (\<exists>st' B. visitNode code_src (Literal ''code'' 0 (Some 0) (Some 5)) 0 init_state = Some st'
        \<and> last (kids (rootEl st')) = ElemNode B
        \<and> kids B =
            [ElemNode (Element ''div'' [''x-star-md-editor-code'', ''x-star-md-editor-first''] []
               [TextNode (ascii ''ab''), TextNode [ZWSP]]),
             ElemNode (Element ''div'' [''x-star-md-editor-code'', ''x-star-md-editor-last''] []
               [TextNode (ascii ''cd''), TextNode [ZWSP]])])
   \<and> editorRender code_src [code_node] =
       Some (Element ''div'' [] []
         [ElemNode (Element ''div'' [''x-star-md-editor-block''] [(''index'', ''0'')]
            [ElemNode (Element ''div'' [''x-star-md-editor-code'', ''x-star-md-editor-first''] []
               [TextNode (ascii ''ab''), TextNode [ZWSP]]),
             ElemNode (Element ''div'' [''x-star-md-editor-code'', ''x-star-md-editor-last''] []
               [TextNode (ascii ''cd''), TextNode [ZWSP]])])])
   \<and> \<not> opaque (ntype (Literal ''text'' 0 None None))
   \<and> addStyle (Literal ''text'' 0 None None) True True (createElement ''span'')
       = Element ''span'' [''x-star-md-editor-text''] [] []
   \<and> list_all plain scenarioB_tree
   \<and> (\<exists>r. editorRender scenarioB_src scenarioB_tree = Some r \<and> unmarked r)"
proof -
  note inst = opaque_two_lines [where ty = "''code''" and st = init_state and so = 0
      and S = code_src and eo = 5 and ?l1.0 = "ascii ''ab''" and ?l2.0 = "ascii ''cd''"
      and d = 0 and i = 0 and n = "Literal ''text'' 0 None None" and a = True and b = True
      and e = "createElement ''span''" and nodes = scenarioB_tree and T = scenarioB_src]
  have h1: "opaque ''code''" by (simp add: opaque_def)
  have h2: "scanOffset init_state \<le> 0" by (simp add: init_state_def)
  have h3: "split_nl (js_slice code_src 0 5) = [ascii ''ab'', ascii ''cd'']" by code_simp
  have h: "opaque ''code'' \<and> scanOffset init_state \<le> 0
     \<and> split_nl (js_slice code_src 0 5) = [ascii ''ab'', ascii ''cd'']"
    using h1 h2 h3 by (intro conjI)
  have e: "stack init_state = []" "kids (block init_state) = []"
    by (simp_all add: init_state_def createElement_def)
  have t1: "text_kids (last (split_nl (js_slice code_src (scanOffset init_state) 0)) @ ascii ''ab'')
      @ [TextNode [ZWSP]] = [TextNode (ascii ''ab''), TextNode [ZWSP]]"
    by code_simp
  have t2: "text_kids (ascii ''cd'') @ [TextNode [ZWSP]] = [TextNode (ascii ''cd''), TextNode [ZWSP]]"
    by code_simp
  have c1: "classNamePrefix @ ''code'' = ''x-star-md-editor-code''"
    "classNamePrefix @ ''first'' = ''x-star-md-editor-first''"
    "classNamePrefix @ ''last'' = ''x-star-md-editor-last''"
    by (simp_all add: classNamePrefix_def)
  have out: "editorRender code_src [code_node] =
       Some (Element ''div'' [] []
         [ElemNode (Element ''div'' [''x-star-md-editor-block''] [(''index'', ''0'')]
            [ElemNode (Element ''div'' [''x-star-md-editor-code'', ''x-star-md-editor-first''] []
               [TextNode (ascii ''ab''), TextNode [ZWSP]]),
             ElemNode (Element ''div'' [''x-star-md-editor-code'', ''x-star-md-editor-last''] []
               [TextNode (ascii ''cd''), TextNode [ZWSP]])])])"
    by code_simp
  from mp [OF conjunct1 [OF inst] h] obtain st' where
    v: "visitNode code_src (Literal ''code'' 0 (Some 0) (Some 5)) 0 init_state = Some st'"
    and t: "stack init_state = [] \<longrightarrow>
         (\<exists>B pre. last (kids (rootEl st')) = ElemNode B
           \<and> kids B = pre @
               [ElemNode (Element ''div'' [classNamePrefix @ ''code'', classNamePrefix @ ''first''] []
                  (text_kids (last (split_nl (js_slice code_src (scanOffset init_state) 0)) @ ascii ''ab'')
                     @ [TextNode [ZWSP]])),
                ElemNode (Element ''div'' [classNamePrefix @ ''code'', classNamePrefix @ ''last''] []
                  (text_kids (ascii ''cd'') @ [TextNode [ZWSP]]))]
           \<and> (kids (block init_state) = [] \<longrightarrow> pre = []))"
    by blast
  from mp [OF t e(1)] obtain B pre where
    B: "last (kids (rootEl st')) = ElemNode B"
      "kids B = pre @
               [ElemNode (Element ''div'' [classNamePrefix @ ''code'', classNamePrefix @ ''first''] []
                  (text_kids (last (split_nl (js_slice code_src (scanOffset init_state) 0)) @ ascii ''ab'')
                     @ [TextNode [ZWSP]])),
                ElemNode (Element ''div'' [classNamePrefix @ ''code'', classNamePrefix @ ''last''] []
                  (text_kids (ascii ''cd'') @ [TextNode [ZWSP]]))]"
      "kids (block init_state) = [] \<longrightarrow> pre = []"
    by blast
  have p: "pre = []" using B(3) e(2) by simp
  have k: "kids B =
            [ElemNode (Element ''div'' [''x-star-md-editor-code'', ''x-star-md-editor-first''] []
               [TextNode (ascii ''ab''), TextNode [ZWSP]]),
             ElemNode (Element ''div'' [''x-star-md-editor-code'', ''x-star-md-editor-last''] []
               [TextNode (ascii ''cd''), TextNode [ZWSP]])]"
    using B(2) unfolding p t1 t2 c1 by simp
  have w1: "\<exists>st' B. visitNode code_src (Literal ''code'' 0 (Some 0) (Some 5)) 0 init_state = Some st'
        \<and> last (kids (rootEl st')) = ElemNode B
        \<and> kids B =
            [ElemNode (Element ''div'' [''x-star-md-editor-code'', ''x-star-md-editor-first''] []
               [TextNode (ascii ''ab''), TextNode [ZWSP]]),
             ElemNode (Element ''div'' [''x-star-md-editor-code'', ''x-star-md-editor-last''] []
               [TextNode (ascii ''cd''), TextNode [ZWSP]])]"
    using v B(1) k by blast
  have n: "\<not> opaque (ntype (Literal ''text'' 0 None None))" by (simp add: opaque_def)
  have w2: "addStyle (Literal ''text'' 0 None None) True True (createElement ''span'')
       = Element ''span'' [''x-star-md-editor-text''] [] []"
    unfolding mp [OF conjunct1 [OF conjunct2 [OF inst]] n] by code_simp
  have pl: "list_all plain scenarioB_tree" by (simp add: scenarioB_tree_def opaque_def)
  then have "\<forall>m\<in>set scenarioB_tree. plain m" by (simp add: list_all_iff)
  note w3 = mp [OF conjunct2 [OF conjunct2 [OF inst]] this]
  show ?thesis using h1 h2 h3 w1 out n w2 pl w3 by (intro conjI)
qed

section \<open>The element that receives the class names\<close>



section \<open>Determinism\<close>

text \<open>
  C9: \<open>editorRender\<close> is deterministic: two calls with the same source text and
  parsed tree return structurally identical trees.  The pass is run here over a store
  of DOM objects that are made by \<open>createElement\<close> and changed in place, as in the
  code.  In any two documents \<open>h1\<close> and \<open>h2\<close>, whatever objects they hold already
  (all that is asked is that their references are to objects that exist), the call
  returns, and the two roots, at addresses that may differ, hold one and the same
  tree \<open>r\<close>: the same shape, tags, class lists, attributes and texts.  This is the
  tree of the pass over values, which reads nothing but its two arguments.  The store
  that a call leaves is again such a document, so the second call may as well be made
  after the first, in the store the first has left.
\<close>

theorem editorRender_deterministic:
  "wf_dom h1 \<and> wf_dom h2 \<longrightarrow>
     (\<exists>r a1 h1' a2 h2'. editorRender_h S nodes h1 = Some (a1, h1')
        \<and> editorRender_h S nodes h2 = Some (a2, h2')
        \<and> repr h1' a1 r \<and> repr h2' a2 r
        \<and> (\<forall>r'. repr h1' a1 r' \<longrightarrow> r' = r) \<and> (\<forall>r'. repr h2' a2 r' \<longrightarrow> r' = r)
        \<and> editorRender S nodes = Some r
        \<and> wf_dom h1' \<and> wf_dom h2')"
proof
  assume w: "wf_dom h1 \<and> wf_dom h2"
  from editorRender_h_repr [of h1 S nodes] w obtain r a1 h1' where
    1: "editorRender S nodes = Some r" "editorRender_h S nodes h1 = Some (a1, h1')"
      "repr h1' a1 r" "wf_dom h1'" by blast
  from editorRender_h_repr [of h2 S nodes] w 1(1) obtain a2 h2' where
    2: "editorRender_h S nodes h2 = Some (a2, h2')" "repr h2' a2 r" "wf_dom h2'" by auto
  have u1: "\<forall>r'. repr h1' a1 r' \<longrightarrow> r' = r" using repr_unique(1) [OF _ 1(3)] by blast
  have u2: "\<forall>r'. repr h2' a2 r' \<longrightarrow> r' = r" using repr_unique(1) [OF _ 2(2)] by blast
  show "\<exists>r a1 h1' a2 h2'. editorRender_h S nodes h1 = Some (a1, h1')
        \<and> editorRender_h S nodes h2 = Some (a2, h2')
        \<and> repr h1' a1 r \<and> repr h2' a2 r
        \<and> (\<forall>r'. repr h1' a1 r' \<longrightarrow> r' = r) \<and> (\<forall>r'. repr h2' a2 r' \<longrightarrow> r' = r)
        \<and> editorRender S nodes = Some r
        \<and> wf_dom h1' \<and> wf_dom h2'"
    using 1 2 u1 u2 by blast
qed

theorem editorRender_deterministic_witness:
  "wf_dom [] \<and> wf_dom busy_dom
   \<and> (\<exists>r a1 h1' a2 h2'. editorRender_h single_src single_tree [] = Some (a1, h1')
        \<and> editorRender_h single_src single_tree busy_dom = Some (a2, h2')
        \<and> repr h1' a1 r \<and> repr h2' a2 r
        \<and> editorRender single_src single_tree = Some r)
   \<and> map_option fst (editorRender_h single_src single_tree []) = Some 1
   \<and> map_option fst (editorRender_h single_src single_tree busy_dom) = Some 2"
proof -
  have w: "wf_dom [] \<and> wf_dom busy_dom" by (simp add: wf_dom_def busy_dom_def)
  have a: "map_option fst (editorRender_h single_src single_tree []) = Some 1"
    "map_option fst (editorRender_h single_src single_tree busy_dom) = Some 2"
    by code_simp+
  from mp [OF editorRender_deterministic [of "[]" busy_dom single_src single_tree] w]
  have "\<exists>r a1 h1' a2 h2'. editorRender_h single_src single_tree [] = Some (a1, h1')
        \<and> editorRender_h single_src single_tree busy_dom = Some (a2, h2')
        \<and> repr h1' a1 r \<and> repr h2' a2 r
        \<and> editorRender single_src single_tree = Some r"
    by blast
  then show ?thesis using w a by (intro conjI) simp_all
qed

section \<open>Custom blocks of the viewer\<close>

text \<open>
  C10: a math node whose \<open>meta\<close> is not empty is rendered by \<open>customBlocks[meta]\<close>
  with the value of the node as children, and as a plain \<open>div\<close> with the value when
  \<open>customBlocks\<close> has no entry for the key.  With an empty \<open>customBlocks\<close> and the
  meta \<open>constructor\<close> (the text \<open>"$$constructor\nx\n$$"\<close>) the lookup
  \<open>customBlocks[meta]\<close> finds the member inherited from \<open>Object.prototype\<close>, which
  is not nullish, so the element is not a \<open>div\<close>; for a key that is nowhere, it is.
\<close>

theorem custom_block_inherited_key:
  "viewMath Map.empty render (n\<lparr>math_meta := Some ''constructor'', math_value := ''x''\<rparr>)
     = Jsx (Inherited ''constructor'') ''x''
   \<and> viewMath Map.empty render (n\<lparr>math_meta := Some ''constructor'', math_value := ''x''\<rparr>)
     \<noteq> Jsx (Tag ''div'') ''x''
   \<and> viewMath Map.empty render (n\<lparr>math_meta := Some ''chart'', math_value := ''x''\<rparr>)
     = Jsx (Tag ''div'') ''x''
   \<and> viewMath [''chart'' \<mapsto> c] render (n\<lparr>math_meta := Some ''chart'', math_value := ''x''\<rparr>)
     = Jsx (Component c) ''x''"
  by (simp add: viewMath_def mathHandler_def customComponent_def js_get_def
      objectPrototypeKeys_def)

end
